theory Spec2Isabelle
  imports Main "HOL-Library.Word" "HOL-Library.Sublist"
begin

section \<open>JavaScript strings\<close>

text \<open>
  A JavaScript string is a sequence of UTF-16 code units; \<open>chunk[i]\<close>, \<open>length\<close>
  and \<open>slice\<close> all count code units. The characters the decoder tests for are
  named here by their code.
\<close>

type_synonym jschar = "16 word"
type_synonym jsstring = "jschar list"

definition js :: "string \<Rightarrow> jsstring" where
  "js s = map of_char s"

definition dq :: jschar where "dq = 0x22"          \<comment> \<open>the double quote\<close>
definition bs :: jschar where "bs = 0x5C"          \<comment> \<open>the backslash\<close>
definition colon :: jschar where "colon = 0x3A"
definition lower_u :: jschar where "lower_u = 0x75"

text \<open>\<open>WHITESPACE_REGEX = /\s/\<close>: the ECMAScript WhiteSpace and LineTerminator
  code units. \<open>String.prototype.trim\<close> strips the same set.\<close>

definition isWhitespace :: "jschar \<Rightarrow> bool" where
  "isWhitespace c \<longleftrightarrow>
     c = 0x09 \<or> c = 0x0A \<or> c = 0x0B \<or> c = 0x0C \<or> c = 0x0D \<or> c = 0x20 \<or>
     c = 0xA0 \<or> c = 0x1680 \<or> (0x2000 \<le> c \<and> c \<le> 0x200A) \<or>
     c = 0x2028 \<or> c = 0x2029 \<or> c = 0x202F \<or> c = 0x205F \<or> c = 0x3000 \<or>
     c = 0xFEFF"

definition trim :: "jsstring \<Rightarrow> jsstring" where
  "trim s = rev (dropWhile isWhitespace (rev (dropWhile isWhitespace s)))"

section \<open>\<open>JSON.parse\<close> on a quoted string literal\<close>

text \<open>
  The decoder only ever calls \<open>JSON.parse\<close> on the text
  \<open>"\<close> + buffer + \<open>"\<close>. Such a text starts with a double quote, so it is
  accepted exactly when it is one JSON string literal followed by JSON
  whitespace. \<open>None\<close> stands for the \<open>SyntaxError\<close> that the callers catch.
\<close>

definition jsonWhitespace :: "jschar \<Rightarrow> bool" where
  "jsonWhitespace c \<longleftrightarrow> c = 0x20 \<or> c = 0x09 \<or> c = 0x0A \<or> c = 0x0D"

definition hexValue :: "jschar \<Rightarrow> jschar option" where
  "hexValue c =
     (if 0x30 \<le> c \<and> c \<le> 0x39 then Some (c - 0x30)
      else if 0x41 \<le> c \<and> c \<le> 0x46 then Some (c - 0x37)
      else if 0x61 \<le> c \<and> c \<le> 0x66 then Some (c - 0x57)
      else None)"

definition hex4 :: "jschar \<Rightarrow> jschar \<Rightarrow> jschar \<Rightarrow> jschar \<Rightarrow> jschar option" where
  "hex4 a b c d =
     (case (hexValue a, hexValue b, hexValue c, hexValue d) of
        (Some w, Some x, Some y, Some z) \<Rightarrow> Some (w * 0x1000 + x * 0x100 + y * 0x10 + z)
      | _ \<Rightarrow> None)"

definition simpleEscape :: "jschar \<Rightarrow> jschar option" where
  "simpleEscape e =
     (if e = 0x22 then Some 0x22            \<comment> \<open>quotation mark\<close>
      else if e = 0x5C then Some 0x5C       \<comment> \<open>reverse solidus\<close>
      else if e = 0x2F then Some 0x2F       \<comment> \<open>solidus\<close>
      else if e = 0x62 then Some 0x08       \<comment> \<open>b: backspace\<close>
      else if e = 0x66 then Some 0x0C       \<comment> \<open>f: form feed\<close>
      else if e = 0x6E then Some 0x0A       \<comment> \<open>n: line feed\<close>
      else if e = 0x72 then Some 0x0D       \<comment> \<open>r: carriage return\<close>
      else if e = 0x74 then Some 0x09       \<comment> \<open>t: tab\<close>
      else None)"

text \<open>The characters after the opening quote, up to and including the closing
  quote and whatever follows it.\<close>

fun parseStringChars :: "jsstring \<Rightarrow> jsstring option" where
  "parseStringChars [] = None"
| "parseStringChars (c # cs) =
     (if c = dq then (if list_all jsonWhitespace cs then Some [] else None)
      else if c = bs then
        (case cs of
           [] \<Rightarrow> None
         | e # r \<Rightarrow>
             if e = lower_u then
               (case r of
                  h1 # h2 # h3 # h4 # r' \<Rightarrow>
                    (case hex4 h1 h2 h3 h4 of
                       None \<Rightarrow> None
                     | Some x \<Rightarrow> map_option ((#) x) (parseStringChars r'))
                | _ \<Rightarrow> None)
             else
               (case simpleEscape e of
                  None \<Rightarrow> None
                | Some x \<Rightarrow> map_option ((#) x) (parseStringChars r)))
      else if c < 0x20 then None
      else map_option ((#) c) (parseStringChars cs))"

definition JSON_parse_quoted :: "jsstring \<Rightarrow> jsstring option" where
  "JSON_parse_quoted buffer = parseStringChars (buffer @ [dq])"

section \<open>The field decoder (\<open>JsonFieldStreamDecoder\<close>)\<close>

datatype FieldStage = SearchingKey | AfterKey | WaitingForStringStart | Collecting | Complete

text \<open>The listener calls, in the order they are made. Both listeners are
  optional in the source; the list records the calls a registered listener
  receives.\<close>

datatype notification =
    OnDelta (nfield: jsstring) (delta: jsstring) (fullValue: jsstring)
  | OnComplete (nfield: jsstring) (cvalue: jsstring)

record decoder =
  field :: jsstring
  keyPattern :: jsstring
  stage :: FieldStage
  keyIndex :: nat
  collectingBuffer :: jsstring
  escapeActive :: bool
  unicodeDigitsRemaining :: nat
  lastEmittedLength :: nat
  currentValue :: jsstring

definition newDecoder :: "jsstring \<Rightarrow> decoder" where
  "newDecoder f =
     \<lparr> field = f, keyPattern = dq # f @ [dq], stage = SearchingKey, keyIndex = 0,
       collectingBuffer = [], escapeActive = False, unicodeDigitsRemaining = 0,
       lastEmittedLength = 0, currentValue = [] \<rparr>"

text \<open>\<open>s[i]\<close> on a string: \<open>undefined\<close> out of range, which equals no character.\<close>

definition charAt :: "jsstring \<Rightarrow> nat \<Rightarrow> jschar option" where
  "charAt s i = (if i < length s then Some (s ! i) else None)"

definition processKeyChar :: "decoder \<Rightarrow> jschar \<Rightarrow> decoder" where
  "processKeyChar d c =
     (if Some c = charAt (keyPattern d) (keyIndex d) then
        (if keyIndex d + 1 = length (keyPattern d)
         then d\<lparr>stage := AfterKey, keyIndex := 0\<rparr>
         else d\<lparr>keyIndex := keyIndex d + 1\<rparr>)
      else d\<lparr>keyIndex := (if Some c = charAt (keyPattern d) 0 then 1 else 0)\<rparr>)"

definition resetSearchAndReprocess :: "decoder \<Rightarrow> jschar \<Rightarrow> decoder" where
  "resetSearchAndReprocess d c = processKeyChar (d\<lparr>stage := SearchingKey, keyIndex := 0\<rparr>) c"

definition processPostKeyChar :: "decoder \<Rightarrow> jschar \<Rightarrow> decoder" where
  "processPostKeyChar d c =
     (if c = colon then d\<lparr>stage := WaitingForStringStart\<rparr>
      else if isWhitespace c then d
      else resetSearchAndReprocess d c)"

definition processStringStartChar :: "decoder \<Rightarrow> jschar \<Rightarrow> decoder" where
  "processStringStartChar d c =
     (if isWhitespace c then d
      else if c = dq then
        d\<lparr>stage := Collecting, collectingBuffer := [], escapeActive := False,
          unicodeDigitsRemaining := 0, lastEmittedLength := 0\<rparr>
      else resetSearchAndReprocess d c)"

definition emitDelta :: "decoder \<Rightarrow> decoder \<times> notification list" where
  "emitDelta d =
     (if collectingBuffer d = [] then (d, [])
      else case JSON_parse_quoted (collectingBuffer d) of
        None \<Rightarrow> (d, [])
      | Some decoded \<Rightarrow>
          if length decoded > lastEmittedLength d then
            (d\<lparr>lastEmittedLength := length decoded, currentValue := decoded\<rparr>,
             [OnDelta (field d) (drop (lastEmittedLength d) decoded) decoded])
          else (d, []))"

definition finalizeValue :: "decoder \<Rightarrow> decoder \<times> notification list" where
  "finalizeValue d =
     (let (d1, evs) =
        (case JSON_parse_quoted (collectingBuffer d) of
           None \<Rightarrow> (d, [])
         | Some decoded \<Rightarrow>
             (if length decoded > lastEmittedLength d then
                (d\<lparr>lastEmittedLength := length decoded, currentValue := decoded\<rparr>,
                 (if drop (lastEmittedLength d) decoded \<noteq> []
                  then [OnDelta (field d) (drop (lastEmittedLength d) decoded) decoded]
                  else []) @ [OnComplete (field d) decoded])
              else (d, [OnComplete (field d) decoded])))
      in (d1\<lparr>stage := Complete, collectingBuffer := [], escapeActive := False,
              unicodeDigitsRemaining := 0\<rparr>, evs))"

definition processValueChar :: "decoder \<Rightarrow> jschar \<Rightarrow> decoder \<times> notification list" where
  "processValueChar d c =
     (if unicodeDigitsRemaining d > 0 then
        (let d1 = d\<lparr>collectingBuffer := collectingBuffer d @ [c],
                     unicodeDigitsRemaining := unicodeDigitsRemaining d - 1\<rparr>
         in if unicodeDigitsRemaining d1 = 0
            then emitDelta (d1\<lparr>escapeActive := False\<rparr>)
            else (d1, []))
      else if escapeActive d then
        (let d1 = d\<lparr>collectingBuffer := collectingBuffer d @ [c]\<rparr>
         in if c = lower_u then (d1\<lparr>unicodeDigitsRemaining := 4\<rparr>, [])
            else emitDelta (d1\<lparr>escapeActive := False\<rparr>))
      else if c = bs then
        (d\<lparr>collectingBuffer := collectingBuffer d @ [c], escapeActive := True\<rparr>, [])
      else if c = dq then finalizeValue d
      else emitDelta (d\<lparr>collectingBuffer := collectingBuffer d @ [c]\<rparr>))"

text \<open>The body of the \<open>switch\<close> in \<open>processChunk\<close>.\<close>

definition processChar :: "decoder \<Rightarrow> jschar \<Rightarrow> decoder \<times> notification list" where
  "processChar d c =
     (case stage d of
        SearchingKey \<Rightarrow> (processKeyChar d c, [])
      | AfterKey \<Rightarrow> (processPostKeyChar d c, [])
      | WaitingForStringStart \<Rightarrow> (processStringStartChar d c, [])
      | Collecting \<Rightarrow> processValueChar d c
      | Complete \<Rightarrow> (d, []))"

text \<open>The \<open>for\<close> loop of \<open>processChunk\<close>: it stops at the end of the chunk or
  as soon as the stage is \<open>Complete\<close>.\<close>

fun processChunkLoop :: "decoder \<Rightarrow> jsstring \<Rightarrow> decoder \<times> notification list" where
  "processChunkLoop d [] = (d, [])"
| "processChunkLoop d (c # cs) =
     (if stage d = Complete then (d, [])
      else (let (d1, e1) = processChar d c;
                (d2, e2) = processChunkLoop d1 cs
            in (d2, e1 @ e2)))"

definition processChunk :: "decoder \<Rightarrow> jsstring \<Rightarrow> decoder \<times> notification list" where
  "processChunk d chunk =
     (if stage d = Complete then (d, []) else processChunkLoop d chunk)"

text \<open>A caller feeding the chunks of a stream to one decoder, in order.\<close>

fun processChunks :: "decoder \<Rightarrow> jsstring list \<Rightarrow> decoder \<times> notification list" where
  "processChunks d [] = (d, [])"
| "processChunks d (chunk # chunks) =
     (let (d1, e1) = processChunk d chunk;
          (d2, e2) = processChunks d1 chunks
      in (d2, e1 @ e2))"

text \<open>What a listener has received: the deltas joined, and the completion values.\<close>

fun deltasOf :: "notification list \<Rightarrow> jsstring" where
  "deltasOf [] = []"
| "deltasOf (OnDelta f dl fv # ns) = dl @ deltasOf ns"
| "deltasOf (OnComplete f v # ns) = deltasOf ns"

fun completionsOf :: "notification list \<Rightarrow> jsstring list" where
  "completionsOf [] = []"
| "completionsOf (OnDelta f dl fv # ns) = completionsOf ns"
| "completionsOf (OnComplete f v # ns) = v # completionsOf ns"

section \<open>The terminal execute stream (\<open>createExecuteStream\<close>)\<close>

text \<open>The events of \<open>runExecute\<close>. A missing optional number is \<open>None\<close>
  (\<open>typeof x === 'number'\<close> is false).\<close>

datatype ExecuteEvent =
    TokenEvent (tokenText: jsstring)
  | StderrEvent (stderrMessage: jsstring)
  | StatusEvent (statusMessage: jsstring) (exitCode: "int option")
      (evTokensIn: "int option") (evTokensOut: "int option")

record PersistedEvent =
  pSessionId :: jsstring
  pEvent :: ExecuteEvent           \<comment> \<open>\<open>kind\<close> and \<open>data\<close> of the event\<close>

text \<open>The argument of \<open>appendErrorText\<close> is \<open>unknown\<close>: an object, with a
  string \<open>message\<close> and a string \<open>text\<close> property or without, a string, or
  anything else.\<close>

datatype payload =
    PayloadObject (pmessage: "jsstring option") (ptext: "jsstring option")
  | PayloadString jsstring
  | PayloadOther

definition appendErrorText :: "jsstring \<Rightarrow> payload \<Rightarrow> jsstring" where
  "appendErrorText buffer p =
     (let text =
        (case p of
           PayloadObject (Some m) t \<Rightarrow> m
         | PayloadObject None (Some t) \<Rightarrow> t
         | PayloadObject None None \<Rightarrow> []
         | PayloadString s \<Rightarrow> s
         | PayloadOther \<Rightarrow> [])
      in if text = [] then buffer
         else if buffer \<noteq> [] then buffer @ [0x0A] @ text else text)"

text \<open>What a \<open>throw\<close> carries: an \<open>Error\<close> with its message, or some other value.\<close>

datatype thrown = ErrorObject jsstring | NonError

definition errorMessage :: "thrown \<Rightarrow> jsstring" where
  "errorMessage e = (case e of ErrorObject m \<Rightarrow> m | NonError \<Rightarrow> js ''Unknown error'')"

text \<open>The payloads written to the client, before their encoding as
  \<open>data: ...\<close> lines.\<close>

datatype clientEvent = ClientEvent ExecuteEvent | ClientDone | ClientError jsstring

record summary =
  sOutput :: "jsstring option"
  sLatencyMs :: int
  sTokensIn :: int
  sTokensOut :: int

text \<open>
  What one run does to the world outside, in order: writes to the stream
  controller, calls of \<open>flushEvents\<close> and \<open>finalize\<close>, the bulk write
  \<open>prisma.terminalEvent.createMany\<close> and the update \<open>prisma.command.update\<close>
  with their outcome (\<open>True\<close>: resolved, \<open>False\<close>: rejected), and
  \<open>console.error\<close>.
\<close>

datatype action =
    Enqueue clientEvent
  | FlushEvents
  | CreateMany "PersistedEvent list" bool
  | FinalizeCall
  | CommandUpdate jsstring summary bool
  | ConsoleError jsstring
  | Close

text \<open>
  What the run is given from outside: the producer (\<open>getCommandHistory\<close> may
  raise; \<open>runExecute\<close> yields events, each paired with the reading of
  \<open>Date.now()\<close> taken after it is handled, then returns or raises), the other
  clock readings, the outcome of each database call, and the consumer of the
  stream. A consumer that cancels after \<open>n\<close> events leaves the controller
  closed: every later \<open>enqueue\<close> and \<open>close\<close> raises a \<open>TypeError\<close>.
\<close>

record env =
  sessionId :: jsstring
  commandId :: jsstring
  startTime :: int
  firstFlushTime :: int
  historyFails :: "thrown option"
  items :: "(ExecuteEvent \<times> int) list"
  ending :: "thrown option"
  finalizeTime :: int
  createManyOk :: "nat \<Rightarrow> bool"      \<comment> \<open>the outcome of the n-th bulk write\<close>
  updateOk :: bool
  cancelAfter :: "nat option"
  closedMessage :: jsstring

record pipeline =
  outputBuffer :: jsstring
  errorBuffer :: jsstring
  tokensIn :: int
  tokensOut :: int
  encounteredError :: bool
  eventBatch :: "PersistedEvent list"
  lastFlush :: int
  trace :: "action list"

definition initialPipeline :: "env \<Rightarrow> pipeline" where
  "initialPipeline e =
     \<lparr> outputBuffer = [], errorBuffer = [], tokensIn = 0, tokensOut = 0,
       encounteredError = False, eventBatch = [], lastFlush = firstFlushTime e,
       trace = [] \<rparr>"

fun isEnqueue :: "action \<Rightarrow> bool" where
  "isEnqueue (Enqueue x) = True"
| "isEnqueue a = False"

fun isCreateMany :: "action \<Rightarrow> bool" where
  "isCreateMany (CreateMany rows ok) = True"
| "isCreateMany a = False"

fun isCommandUpdate :: "action \<Rightarrow> bool" where
  "isCommandUpdate (CommandUpdate i s ok) = True"
| "isCommandUpdate a = False"

definition controllerClosed :: "env \<Rightarrow> pipeline \<Rightarrow> bool" where
  "controllerClosed e st =
     (case cancelAfter e of
        None \<Rightarrow> False
      | Some n \<Rightarrow> n \<le> length (filter isEnqueue (trace st)))"

text \<open>\<open>controller.enqueue\<close>: the result is the exception raised, if any.\<close>

definition enqueue :: "env \<Rightarrow> pipeline \<Rightarrow> clientEvent \<Rightarrow> thrown option \<times> pipeline" where
  "enqueue e st x =
     (if controllerClosed e st then (Some (ErrorObject (closedMessage e)), st)
      else (None, st\<lparr>trace := trace st @ [Enqueue x]\<rparr>))"

definition flushEvents :: "env \<Rightarrow> pipeline \<Rightarrow> pipeline" where
  "flushEvents e st =
     (if eventBatch st = [] then st\<lparr>trace := trace st @ [FlushEvents]\<rparr>
      else
        (let rows = eventBatch st;              \<comment> \<open>\<open>eventBatch.splice(0)\<close>\<close>
             ok = createManyOk e (length (filter isCreateMany (trace st)))
         in st\<lparr>eventBatch := [],
               trace := trace st @ [FlushEvents, CreateMany rows ok] @
                 (if ok then [] else [ConsoleError (js ''Failed to persist terminal events'')])\<rparr>))"

definition finalizeCommandRecord ::
    "env \<Rightarrow> pipeline \<Rightarrow> jsstring \<Rightarrow> jsstring option \<Rightarrow> int \<Rightarrow> int \<Rightarrow> int \<Rightarrow> pipeline" where
  "finalizeCommandRecord e st cid out latency tin tout =
     st\<lparr>trace := trace st @
           [CommandUpdate cid
              \<lparr>sOutput = out, sLatencyMs = latency, sTokensIn = tin, sTokensOut = tout\<rparr>
              (updateOk e)] @
           (if updateOk e then [] else [ConsoleError (js ''Failed to finalize command output'')])\<rparr>"

definition finalize :: "env \<Rightarrow> pipeline \<Rightarrow> pipeline" where
  "finalize e st =
     (let latency = finalizeTime e - startTime e;
          finalOutput =
            (if length (outputBuffer st) > 0 then Some (outputBuffer st)
             else if encounteredError st \<and> length (errorBuffer st) > 0
               then Some (trim (js ''Error: '' @ errorBuffer st))
             else None)
      in finalizeCommandRecord e (st\<lparr>trace := trace st @ [FinalizeCall]\<rparr>)
           (commandId e) finalOutput latency (tokensIn st) (tokensOut st))"

text \<open>The accumulation in the body of the \<open>for await\<close> loop.\<close>

definition accumulate :: "pipeline \<Rightarrow> ExecuteEvent \<Rightarrow> pipeline" where
  "accumulate st ev =
     (case ev of
        TokenEvent t \<Rightarrow> st\<lparr>outputBuffer := outputBuffer st @ t\<rparr>
      | StderrEvent m \<Rightarrow>
          st\<lparr>encounteredError := True,
             errorBuffer := appendErrorText (errorBuffer st) (PayloadObject (Some m) None)\<rparr>
      | StatusEvent m code tin tout \<Rightarrow>
          (let st1 = (case tin of Some n \<Rightarrow> st\<lparr>tokensIn := n\<rparr> | None \<Rightarrow> st);
               st2 = (case tout of Some n \<Rightarrow> st1\<lparr>tokensOut := n\<rparr> | None \<Rightarrow> st1)
           in (case code of
                 Some c \<Rightarrow> if c \<noteq> 0 then st2\<lparr>encounteredError := True\<rparr> else st2
               | None \<Rightarrow> st2)))"

definition handleEvent :: "env \<Rightarrow> pipeline \<Rightarrow> ExecuteEvent \<times> int \<Rightarrow> thrown option \<times> pipeline" where
  "handleEvent e st item =
     (case item of (ev, now) \<Rightarrow>
        (case enqueue e st (ClientEvent ev) of
           (Some err, st1) \<Rightarrow> (Some err, st1)
         | (None, st1) \<Rightarrow>
             (let st2 = st1\<lparr>eventBatch := eventBatch st1 @
                            [\<lparr>pSessionId = sessionId e, pEvent = ev\<rparr>]\<rparr>;
                  st3 = accumulate st2 ev
              in if now - lastFlush st3 > 200
                 then (None, (flushEvents e st3)\<lparr>lastFlush := now\<rparr>)
                 else (None, st3))))"

fun eventLoop :: "env \<Rightarrow> pipeline \<Rightarrow> (ExecuteEvent \<times> int) list \<Rightarrow> thrown option \<times> pipeline" where
  "eventLoop e st [] = (None, st)"
| "eventLoop e st (item # rest) =
     (case handleEvent e st item of
        (Some err, st1) \<Rightarrow> (Some err, st1)
      | (None, st1) \<Rightarrow> eventLoop e st1 rest)"

definition tryBlock :: "env \<Rightarrow> pipeline \<Rightarrow> thrown option \<times> pipeline" where
  "tryBlock e st =
     (case historyFails e of
        Some err \<Rightarrow> (Some err, st)
      | None \<Rightarrow>
          (case eventLoop e st (items e) of
             (Some err, st1) \<Rightarrow> (Some err, st1)
           | (None, st1) \<Rightarrow>
               (case ending e of
                  Some err \<Rightarrow> (Some err, st1)
                | None \<Rightarrow> enqueue e (finalize e (flushEvents e st1)) ClientDone)))"

definition catchBlock :: "env \<Rightarrow> pipeline \<Rightarrow> thrown \<Rightarrow> thrown option \<times> pipeline" where
  "catchBlock e st err =
     (let errorMsg = errorMessage err;
          st1 = st\<lparr>encounteredError := True,
                   errorBuffer := appendErrorText (errorBuffer st) (PayloadString errorMsg)\<rparr>
      in case enqueue e st1 (ClientError errorMsg) of
           (Some err', st2) \<Rightarrow> (Some err', st2)
         | (None, st2) \<Rightarrow> (None, finalize e (flushEvents e st2)))"

definition closeController :: "env \<Rightarrow> pipeline \<Rightarrow> thrown option \<times> pipeline" where
  "closeController e st =
     (if controllerClosed e st then (Some (ErrorObject (closedMessage e)), st)
      else (None, st\<lparr>trace := trace st @ [Close]\<rparr>))"

text \<open>\<open>start(controller)\<close>: the \<open>try\<close>, the \<open>catch\<close> when it raised, then the
  \<open>finally\<close>. The result is the exception the promise rejects with, if any.\<close>

definition start :: "env \<Rightarrow> thrown option \<times> pipeline" where
  "start e =
     (let (r1, st1) = tryBlock e (initialPipeline e);
          (r2, st2) = (case r1 of None \<Rightarrow> (None, st1) | Some err \<Rightarrow> catchBlock e st1 err)
      in case closeController e st2 of
           (Some err, st3) \<Rightarrow> (Some err, st3)
         | (None, st3) \<Rightarrow> (r2, st3))"

text \<open>The rows the event table has received, and the last summary stored.\<close>

fun persistedRows :: "action list \<Rightarrow> PersistedEvent list" where
  "persistedRows [] = []"
| "persistedRows (CreateMany rows True # tr) = rows @ persistedRows tr"
| "persistedRows (a # tr) = persistedRows tr"

fun storedSummary :: "action list \<Rightarrow> summary option" where
  "storedSummary [] = None"
| "storedSummary (a # tr) =
     (case storedSummary tr of
        Some s \<Rightarrow> Some s
      | None \<Rightarrow> (case a of CommandUpdate i s True \<Rightarrow> Some s | _ \<Rightarrow> None))"

section \<open>The suggestion stream (\<open>POST /api/ai/generate/stream\<close>)\<close>

record SuggestOutput =
  command :: jsstring
  explanation :: jsstring

record AgentRunResult =
  resultOutput :: SuggestOutput
  usageInputTokens :: int
  usageOutputTokens :: int
  resultLatencyMs :: int

text \<open>What \<open>runSuggest\<close> meets outside the program: whether the API key is
  configured, what \<open>runner.run\<close> gives (it raises, or it returns a result with
  an optional final output and the optional usage of its last raw response),
  and the time the call took.\<close>

record Usage =
  inputTokens :: "int option"
  outputTokens :: "int option"

record RunnerResult =
  finalOutput :: "SuggestOutput option"
  lastUsage :: "Usage option"

record suggestEnv =
  apiKeyConfigured :: bool
  runnerOutcome :: "thrown + RunnerResult"
  elapsedMs :: int

record finalPayload =
  fpCommand :: jsstring
  fpExplanation :: jsstring
  fpTokensIn :: int
  fpTokensOut :: int
  fpLatencyMs :: int

datatype generateEvent =
    DeltaEvent jsstring jsstring        \<comment> \<open>field and text\<close>
  | ResultEvent finalPayload
  | DoneEvent
  | ErrorEvent jsstring

text \<open>The variables of \<open>start\<close> and the events written to the controller. The
  consumer of this stream is taken to keep reading.\<close>

record generateState =
  commandParser :: decoder
  explanationParser :: decoder
  latestCommand :: jsstring
  latestExplanation :: jsstring
  sent :: "generateEvent list"

definition initialGenerateState :: generateState where
  "initialGenerateState =
     \<lparr> commandParser = newDecoder (js ''command''),
       explanationParser = newDecoder (js ''explanation''),
       latestCommand = [], latestExplanation = [], sent = [] \<rparr>"

text \<open>The two \<open>onDelta\<close> listeners; no \<open>onComplete\<close> listener is registered.\<close>

fun commandListener :: "generateState \<Rightarrow> notification \<Rightarrow> generateState" where
  "commandListener st (OnDelta f dl fv) =
     st\<lparr>latestCommand := fv, sent := sent st @ [DeltaEvent (js ''command'') dl]\<rparr>"
| "commandListener st (OnComplete f v) = st"

fun explanationListener :: "generateState \<Rightarrow> notification \<Rightarrow> generateState" where
  "explanationListener st (OnDelta f dl fv) =
     st\<lparr>latestExplanation := fv, sent := sent st @ [DeltaEvent (js ''explanation'') dl]\<rparr>"
| "explanationListener st (OnComplete f v) = st"

definition onStreamChunk :: "generateState \<Rightarrow> jsstring \<Rightarrow> generateState" where
  "onStreamChunk st chunk =
     (let (cp, ns1) = processChunk (commandParser st) chunk;
          st1 = foldl commandListener (st\<lparr>commandParser := cp\<rparr>) ns1;
          (ep, ns2) = processChunk (explanationParser st1) chunk;
          st2 = foldl explanationListener (st1\<lparr>explanationParser := ep\<rparr>) ns2
      in st2)"

definition buildFinalPayload :: "generateState \<Rightarrow> AgentRunResult \<Rightarrow> finalPayload" where
  "buildFinalPayload st result =
     \<lparr> fpCommand =
         (if latestCommand st \<noteq> [] then latestCommand st else command (resultOutput result)),
       fpExplanation =
         (if latestExplanation st \<noteq> [] then latestExplanation st
          else explanation (resultOutput result)),
       fpTokensIn = usageInputTokens result,
       fpTokensOut = usageOutputTokens result,
       fpLatencyMs = resultLatencyMs result \<rparr>"

definition createAgentRunResult ::
    "SuggestOutput option \<Rightarrow> Usage option \<Rightarrow> int \<Rightarrow> thrown + AgentRunResult" where
  "createAgentRunResult out usage latencyMs =
     (case out of
        None \<Rightarrow> Inl (ErrorObject (js ''Agent result is undefined''))
      | Some v \<Rightarrow>
          Inr \<lparr> resultOutput = v,
                usageInputTokens =
                  (case usage of None \<Rightarrow> 0
                   | Some u \<Rightarrow> (case inputTokens u of None \<Rightarrow> 0 | Some n \<Rightarrow> n)),
                usageOutputTokens =
                  (case usage of None \<Rightarrow> 0
                   | Some u \<Rightarrow> (case outputTokens u of None \<Rightarrow> 0 | Some n \<Rightarrow> n)),
                resultLatencyMs = latencyMs \<rparr>)"

text \<open>\<open>runSuggest\<close> is given the callback \<open>onStreamChunk\<close> by the route, and the
  variables the callback writes are threaded through it as the state \<open>st\<close>.
  Its body checks the API key, runs the agent and builds the result; it reads
  \<open>commandHistory\<close>, \<open>goal\<close>, \<open>os\<close>, \<open>cpu\<close> and \<open>gpu\<close> of its parameter and
  never calls the callback, so the state comes back as it went in.\<close>

definition runSuggest ::
    "suggestEnv \<Rightarrow> ('s \<Rightarrow> jsstring \<Rightarrow> 's) \<Rightarrow> 's \<Rightarrow> (thrown + AgentRunResult) \<times> 's" where
  "runSuggest e onChunk st =
     (if \<not> apiKeyConfigured e
      then (Inl (ErrorObject (js ''OPENAI_API_KEY is not configured.'')), st)
      else case runnerOutcome e of
             Inl err \<Rightarrow> (Inl err, st)
           | Inr r \<Rightarrow> (createAgentRunResult (finalOutput r) (lastUsage r) (elapsedMs e), st))"

text \<open>One request: \<open>getCommandHistory\<close> may raise; \<open>runSuggest\<close> returns its
  result or raises.\<close>

definition generateStream :: "thrown option \<Rightarrow> suggestEnv \<Rightarrow> generateEvent list" where
  "generateStream historyError e =
     (case historyError of
        Some err \<Rightarrow> [ErrorEvent (errorMessage err)]
      | None \<Rightarrow>
          (let (outcome, st) = runSuggest e onStreamChunk initialGenerateState
           in case outcome of
                Inl err \<Rightarrow> sent st @ [ErrorEvent (errorMessage err)]
              | Inr result \<Rightarrow> sent st @ [ResultEvent (buildFinalPayload st result), DoneEvent]))"

section \<open>Auxiliary notions for the proofs\<close>

text \<open>What the decoder accepts after a key token as the start of a string
  value: optional whitespace, a colon, optional whitespace and a double quote.
  \<open>valueFollows r\<close> holds when the text \<open>r\<close> begins that way.\<close>

definition valueFollows :: "jsstring \<Rightarrow> bool" where
  "valueFollows r =
     (case dropWhile isWhitespace r of
        [] \<Rightarrow> False
      | c # r1 \<Rightarrow>
          c = colon \<and>
          (case dropWhile isWhitespace r1 of [] \<Rightarrow> False | c2 # r2 \<Rightarrow> c2 = dq))"

text \<open>The body of a string literal, without its quotes: \<open>decodeBody\<close> decodes
  it when it is complete, and \<open>body raw decoded\<close> splits it into its tokens (a
  plain character, a two-character escape, a \<open>\u\<close> escape).\<close>

fun decodeBody :: "jsstring \<Rightarrow> jsstring option" where
  "decodeBody [] = Some []"
| "decodeBody (c # cs) =
     (if c = dq then None
      else if c = bs then
        (case cs of
           [] \<Rightarrow> None
         | e # r \<Rightarrow>
             if e = lower_u then
               (case r of
                  h1 # h2 # h3 # h4 # r' \<Rightarrow>
                    (case hex4 h1 h2 h3 h4 of
                       None \<Rightarrow> None
                     | Some x \<Rightarrow> map_option ((#) x) (decodeBody r'))
                | _ \<Rightarrow> None)
             else
               (case simpleEscape e of
                  None \<Rightarrow> None
                | Some x \<Rightarrow> map_option ((#) x) (decodeBody r)))
      else if c < 0x20 then None
      else map_option ((#) c) (decodeBody cs))"

inductive body :: "jsstring \<Rightarrow> jsstring \<Rightarrow> bool" where
  body_Nil: "body [] []"
| body_plain: "c \<noteq> dq \<Longrightarrow> c \<noteq> bs \<Longrightarrow> \<not> c < 0x20 \<Longrightarrow> body r v \<Longrightarrow> body (c # r) (c # v)"
| body_simple: "e \<noteq> lower_u \<Longrightarrow> simpleEscape e = Some x \<Longrightarrow> body r v
     \<Longrightarrow> body (bs # e # r) (x # v)"
| body_unicode: "hex4 h1 h2 h3 h4 = Some x \<Longrightarrow> body r v
     \<Longrightarrow> body (bs # lower_u # h1 # h2 # h3 # h4 # r) (x # v)"

text \<open>The state and the notifications after a decoder in the \<open>Collecting\<close>
  stage, having delivered \<open>v0\<close>, has read the further tokens \<open>r\<close> that decode
  to \<open>v\<close>.\<close>

definition collected ::
    "decoder \<Rightarrow> jsstring \<Rightarrow> jsstring \<Rightarrow> jsstring \<Rightarrow> decoder \<times> notification list \<Rightarrow> bool" where
  "collected d r v0 v res \<longleftrightarrow>
     stage (fst res) = Collecting \<and> \<not> escapeActive (fst res) \<and>
     unicodeDigitsRemaining (fst res) = 0 \<and>
     collectingBuffer (fst res) = collectingBuffer d @ r \<and>
     lastEmittedLength (fst res) = length v0 + length v \<and>
     field (fst res) = field d \<and>
     currentValue (fst res) = (if v = [] then currentValue d else v0 @ v) \<and>
     deltasOf (snd res) = v \<and> completionsOf (snd res) = []"

text \<open>A buffer cut into whole tokens the way the decoder delimits them, valid
  or not; and what the buffer of a decoder in the \<open>Collecting\<close> stage looks like.\<close>

inductive lexical :: "jsstring \<Rightarrow> bool" where
  lex_Nil: "lexical []"
| lex_plain: "c \<noteq> dq \<Longrightarrow> c \<noteq> bs \<Longrightarrow> lexical r \<Longrightarrow> lexical (c # r)"
| lex_simple: "e \<noteq> lower_u \<Longrightarrow> lexical r \<Longrightarrow> lexical (bs # e # r)"
| lex_unicode: "lexical r \<Longrightarrow> lexical (bs # lower_u # h1 # h2 # h3 # h4 # r)"

definition pendingEscape :: "decoder \<Rightarrow> bool" where
  "pendingEscape d \<longleftrightarrow>
     (stage d = Collecting \<longrightarrow>
        (\<exists>b. lexical b \<and>
           (\<not> escapeActive d \<and> unicodeDigitsRemaining d = 0 \<and> collectingBuffer d = b \<or>
            escapeActive d \<and> unicodeDigitsRemaining d = 0 \<and> collectingBuffer d = b @ [bs] \<or>
            unicodeDigitsRemaining d > 0 \<and>
              (\<exists>ds. collectingBuffer d = b @ bs # lower_u # ds \<and>
                    length ds + unicodeDigitsRemaining d = 4))))"

text \<open>The rows handed to the bulk write, whatever its outcome; the actions
  other than the finalizer, the summary update and the closing of the stream;
  the rows of the events a run consumes.\<close>

fun handedRows :: "action list \<Rightarrow> PersistedEvent list" where
  "handedRows [] = []"
| "handedRows (CreateMany rows ok # tr) = rows @ handedRows tr"
| "handedRows (a # tr) = handedRows tr"

fun plainAction :: "action \<Rightarrow> bool" where
  "plainAction FinalizeCall = False"
| "plainAction (CommandUpdate i s ok) = False"
| "plainAction Close = False"
| "plainAction a = True"

definition consumedRows :: "env \<Rightarrow> PersistedEvent list" where
  "consumedRows e =
     (case historyFails e of
        Some err \<Rightarrow> []
      | None \<Rightarrow> map (\<lambda>item. \<lparr>pSessionId = sessionId e, pEvent = fst item\<rparr>) (items e))"

text \<open>Four sample runs: the producer yields a token and a status and returns;
  the producer raises before it yields anything, and the bulk write and the
  update are rejected; the first run with a consumer that cancels after the
  first event; the second run with a consumer that has cancelled before the
  producer raises.\<close>

definition completedRun :: env where
  "completedRun =
     \<lparr> sessionId = js ''s1'', commandId = js ''c1'', startTime = 1000, firstFlushTime = 1000,
       historyFails = None,
       items = [(TokenEvent (js ''hi''), 1100),
                (StatusEvent (js ''Complete'') (Some 0) (Some 7) (Some 2), 1300)],
       ending = None, finalizeTime = 1350, createManyOk = (\<lambda>n. True), updateOk = True,
       cancelAfter = None, closedMessage = js ''closed'' \<rparr>"

definition failedRun :: env where
  "failedRun =
     \<lparr> sessionId = js ''s1'', commandId = js ''c1'', startTime = 1000, firstFlushTime = 1000,
       historyFails = None, items = [],
       ending = Some (ErrorObject (js ''no key '')),
       finalizeTime = 1005, createManyOk = (\<lambda>n. False), updateOk = False,
       cancelAfter = None, closedMessage = js ''closed'' \<rparr>"

definition abandonedRun :: env where
  "abandonedRun = completedRun\<lparr>cancelAfter := Some 1\<rparr>"

definition abandonedFailedRun :: env where
  "abandonedFailedRun = failedRun\<lparr>cancelAfter := Some 0\<rparr>"


section \<open>Properties of the field decoder\<close>

subsection \<open>Chunks and the character loop\<close>


lemma loop_Complete: "stage d = Complete \<Longrightarrow> processChunkLoop d cs = (d, [])"
  by (cases cs) simp_all

lemma processChunk_loop: "processChunk d cs = processChunkLoop d cs"
  by (simp add: processChunk_def loop_Complete)

lemma loop_append:
  "processChunkLoop d (xs @ ys) =
     (let (d1, e1) = processChunkLoop d xs; (d2, e2) = processChunkLoop d1 ys in (d2, e1 @ e2))"
proof (induction xs arbitrary: d)
  case Nil
  show ?case by (simp split: prod.splits)
next
  case (Cons x xs)
  show ?case
  proof (cases "stage d = Complete")
    case True
    then show ?thesis by (simp add: loop_Complete)
  next
    case False
    then show ?thesis by (simp add: Cons.IH split: prod.splits)
  qed
qed

lemma chunks_concat: "processChunks d chunks = processChunkLoop d (concat chunks)"
  by (induction chunks arbitrary: d) (simp_all add: processChunk_loop loop_append)

lemma deltasOf_append: "deltasOf (xs @ ys) = deltasOf xs @ deltasOf ys"
  by (induction xs rule: deltasOf.induct) simp_all

lemma completionsOf_append: "completionsOf (xs @ ys) = completionsOf xs @ completionsOf ys"
  by (induction xs rule: completionsOf.induct) simp_all

subsection \<open>String literals and their tokens\<close>

lemma hexValue_dq: "hexValue dq = None"
  by (simp add: hexValue_def dq_def)

lemma hex4_dq: "hex4 a b c dq = None" "hex4 a b dq c = None" "hex4 a dq b c = None" "hex4 dq a b c = None"
  by (simp_all add: hex4_def hexValue_dq split: option.splits)

lemma dq_not_ws: "\<not> jsonWhitespace dq" by (simp add: jsonWhitespace_def dq_def)

lemma parse_decodeBody: "parseStringChars (enc @ [dq]) = decodeBody enc"
proof (induction enc rule: decodeBody.induct)
  case 1
  show ?case by simp
next
  case (2 c cs)
  show ?case
  proof (cases "c = dq")
    case True
    then show ?thesis by (simp add: dq_not_ws)
  next
    case ndq: False
    show ?thesis
    proof (cases "c = bs")
      case False
      with ndq 2 show ?thesis by simp
    next
      case True
      show ?thesis
      proof (cases cs)
        case Nil
        with True ndq show ?thesis by (simp add: simpleEscape_def dq_def lower_u_def bs_def)
      next
        case (Cons e r)
        show ?thesis
        proof (cases "e = lower_u")
          case False
          with True ndq Cons 2 show ?thesis by (simp split: option.splits)
        next
          case eu: True
          show ?thesis
          proof (cases r)
            case Nil
            with True ndq Cons eu show ?thesis by simp
          next
            case c1: (Cons h1 r1)
            show ?thesis
            proof (cases r1)
              case Nil
              with True ndq Cons eu c1 show ?thesis by simp
            next
              case c2: (Cons h2 r2)
              show ?thesis
              proof (cases r2)
                case Nil
                with True ndq Cons eu c1 c2 show ?thesis by simp
              next
                case c3: (Cons h3 r3)
                show ?thesis
                proof (cases r3)
                  case Nil
                  with True ndq Cons eu c1 c2 c3 show ?thesis by (simp add: hex4_dq)
                next
                  case c4: (Cons h4 r4)
                  with True ndq Cons eu c1 c2 c3 2 show ?thesis by (simp split: option.splits)
                qed
              qed
            qed
          qed
        qed
      qed
    qed
  qed
qed



lemma bs_neq_dq: "bs \<noteq> dq" by (simp add: bs_def dq_def)

lemma decodeBody_body: "decodeBody enc = Some v \<Longrightarrow> body enc v"
proof (induction enc arbitrary: v rule: decodeBody.induct)
  case 1
  then show ?case by (simp add: body_Nil)
next
  case (2 c cs)
  from "2.prems" have ndq: "c \<noteq> dq" by (simp split: if_splits)
  show ?case
  proof (cases "c = bs")
    case False
    with ndq "2.prems" obtain v' where "\<not> c < 0x20" "decodeBody cs = Some v'" "v = c # v'"
      by (auto split: if_splits)
    with False ndq "2.IH"(3) show ?thesis by (auto intro: body_plain)
  next
    case True
    with ndq "2.prems" obtain e r where cs: "cs = e # r" by (cases cs) auto
    show ?thesis
    proof (cases "e = lower_u")
      case False
      with True ndq cs "2.prems" obtain x v' where
        "simpleEscape e = Some x" "decodeBody r = Some v'" "v = x # v'"
        by (auto split: option.splits)
      with False True ndq cs "2.IH"(2) show ?thesis by (auto intro: body_simple)
    next
      case eu: True
      with True ndq cs "2.prems" obtain h1 h2 h3 h4 r' where r: "r = h1 # h2 # h3 # h4 # r'"
        by (auto split: list.splits)
      with eu True ndq cs "2.prems" obtain x v' where
        "hex4 h1 h2 h3 h4 = Some x" "decodeBody r' = Some v'" "v = x # v'"
        by (auto split: option.splits)
      with eu True ndq cs r "2.IH"(1) show ?thesis by (auto intro: body_unicode)
    qed
  qed
qed

lemma body_decodeBody_append:
  "body a va \<Longrightarrow> decodeBody (a @ b) = map_option ((@) va) (decodeBody b)"
proof (induction rule: body.induct)
  case body_Nil
  show ?case by (simp add: option.map_ident)
next
  case (body_plain c r v)
  then show ?case by (simp add: option.map_comp comp_def)
next
  case (body_simple e x r v)
  then show ?case by (simp add: bs_neq_dq option.map_comp comp_def)
next
  case (body_unicode h1 h2 h3 h4 x r v)
  then show ?case by (simp add: bs_neq_dq option.map_comp comp_def)
qed

lemma body_decodeBody: "body a va \<Longrightarrow> decodeBody a = Some va"
  using body_decodeBody_append [of a va "[]"] by simp


lemma body_append: "body a va \<Longrightarrow> body b vb \<Longrightarrow> body (a @ b) (va @ vb)"
  by (induction rule: body.induct) (auto intro: body.intros)

subsection \<open>Collecting a value\<close>

lemma JSON_parse_quoted_decodeBody: "JSON_parse_quoted b = decodeBody b"
  by (simp add: JSON_parse_quoted_def parse_decodeBody)

lemma body_snoc:
  "body b v0 \<Longrightarrow> body t v \<Longrightarrow> JSON_parse_quoted (b @ t) = Some (v0 @ v)"
  by (simp add: JSON_parse_quoted_decodeBody body_decodeBody_append body_decodeBody)

lemma emitDelta_token:
  assumes "body b v0" "body t [x]" "collectingBuffer d = b @ t" "lastEmittedLength d = length v0"
  shows "emitDelta d =
     (d\<lparr>lastEmittedLength := length v0 + 1, currentValue := v0 @ [x]\<rparr>,
      [OnDelta (field d) [x] (v0 @ [x])])"
proof -
  from assms(2) have "t \<noteq> []" by (auto elim: body.cases)
  with assms show ?thesis
    by (simp add: emitDelta_def body_snoc)
qed

lemma step_plain:
  assumes "stage d = Collecting" "\<not> escapeActive d" "unicodeDigitsRemaining d = 0"
    "body (collectingBuffer d) v0" "lastEmittedLength d = length v0"
    "c \<noteq> dq" "c \<noteq> bs" "\<not> c < 0x20"
  shows "processChar d c =
     (d\<lparr>collectingBuffer := collectingBuffer d @ [c],
        lastEmittedLength := length v0 + 1, currentValue := v0 @ [c]\<rparr>,
      [OnDelta (field d) [c] (v0 @ [c])])"
proof -
  have t: "body [c] [c]" using assms by (auto intro: body.intros)
  show ?thesis using assms
    by (simp add: processChar_def processValueChar_def
        emitDelta_token [OF assms(4) t])
qed

lemma steps_simple:
  assumes "stage d = Collecting" "\<not> escapeActive d" "unicodeDigitsRemaining d = 0"
    "body (collectingBuffer d) v0" "lastEmittedLength d = length v0"
    "e \<noteq> lower_u" "simpleEscape e = Some x"
  shows "processChunkLoop d (bs # e # r) =
     (let d1 = d\<lparr>collectingBuffer := collectingBuffer d @ [bs, e],
                  escapeActive := False, lastEmittedLength := length v0 + 1, currentValue := v0 @ [x]\<rparr>;
          (d2, e2) = processChunkLoop d1 r
      in (d2, OnDelta (field d) [x] (v0 @ [x]) # e2))"
proof -
  have t: "body [bs, e] [x]" using assms by (auto intro: body.intros)
  show ?thesis using assms
    by (simp add: processChar_def processValueChar_def bs_neq_dq
        emitDelta_token [OF assms(4) t] split: prod.splits)
qed

lemma steps_unicode:
  assumes "stage d = Collecting" "\<not> escapeActive d" "unicodeDigitsRemaining d = 0"
    "body (collectingBuffer d) v0" "lastEmittedLength d = length v0"
    "hex4 h1 h2 h3 h4 = Some x"
  shows "processChunkLoop d (bs # lower_u # h1 # h2 # h3 # h4 # r) =
     (let d1 = d\<lparr>collectingBuffer := collectingBuffer d @ [bs, lower_u, h1, h2, h3, h4],
                  unicodeDigitsRemaining := 0, escapeActive := False, lastEmittedLength := length v0 + 1, currentValue := v0 @ [x]\<rparr>;
          (d2, e2) = processChunkLoop d1 r
      in (d2, OnDelta (field d) [x] (v0 @ [x]) # e2))"
proof -
  have t: "body [bs, lower_u, h1, h2, h3, h4] [x]" using assms by (auto intro: body.intros)
  show ?thesis using assms
    by (simp add: processChar_def processValueChar_def bs_neq_dq
        emitDelta_token [OF assms(4) t] split: prod.splits)
qed



lemma collected_token:
  assumes "collected d1 r (v0 @ [x]) v (processChunkLoop d1 r)"
    and "collectingBuffer d1 = collectingBuffer d @ t" "field d1 = field d"
    and "currentValue d1 = v0 @ [x]"
  shows "collected d (t @ r) v0 (x # v)
           (case processChunkLoop d1 r of (d2, e2) \<Rightarrow> (d2, OnDelta f [x] fv # e2))"
  using assms by (cases "processChunkLoop d1 r") (simp add: collected_def)

lemma collect_body:
  assumes "body r v"
    and "stage d = Collecting" "\<not> escapeActive d" "unicodeDigitsRemaining d = 0"
    and "body (collectingBuffer d) v0" "lastEmittedLength d = length v0"
  shows "collected d r v0 v (processChunkLoop d r)"
  using assms
proof (induction arbitrary: d v0 rule: body.induct)
  case body_Nil
  then show ?case by (simp add: collected_def)
next
  case (body_plain c r v)
  let ?d1 = "d\<lparr>collectingBuffer := collectingBuffer d @ [c],
        lastEmittedLength := length v0 + 1, currentValue := v0 @ [c]\<rparr>"
  have st: "processChar d c = (?d1, [OnDelta (field d) [c] (v0 @ [c])])"
    using body_plain by (intro step_plain) auto
  have t: "body [c] [c]" using body_plain.hyps by (auto intro: body.intros)
  have b1: "body (collectingBuffer ?d1) (v0 @ [c])"
    using body_plain.prems(4) t
    by (simp add: body_append)
  have "collected ?d1 r (v0 @ [c]) v (processChunkLoop ?d1 r)"
    by (rule body_plain.IH) (use body_plain.prems b1 in simp_all)
  from collected_token [OF this, of d "[c]"] 
  show ?case using st body_plain.prems(1) by simp
next
  case (body_simple e x r v)
  let ?d1 = "d\<lparr>collectingBuffer := collectingBuffer d @ [bs, e],
                  escapeActive := False, lastEmittedLength := length v0 + 1,
                  currentValue := v0 @ [x]\<rparr>"
  have t: "body [bs, e] [x]" using body_simple.hyps by (auto intro: body.intros)
  have b1: "body (collectingBuffer ?d1) (v0 @ [x])"
    using body_simple.prems(4) t
    by (simp add: body_append)
  have "collected ?d1 r (v0 @ [x]) v (processChunkLoop ?d1 r)"
    by (rule body_simple.IH) (use body_simple.prems b1 in simp_all)
  from collected_token [OF this, of d "[bs, e]"] 
  show ?case
    using steps_simple [OF body_simple.prems body_simple.hyps(1,2), of r] by simp
next
  case (body_unicode h1 h2 h3 h4 x r v)
  let ?d1 = "d\<lparr>collectingBuffer := collectingBuffer d @ [bs, lower_u, h1, h2, h3, h4],
                  unicodeDigitsRemaining := 0, escapeActive := False,
                  lastEmittedLength := length v0 + 1, currentValue := v0 @ [x]\<rparr>"
  have t: "body [bs, lower_u, h1, h2, h3, h4] [x]"
    using body_unicode.hyps by (auto intro: body.intros)
  have b1: "body (collectingBuffer ?d1) (v0 @ [x])"
    using body_unicode.prems(4) t
    by (simp add: body_append)
  have "collected ?d1 r (v0 @ [x]) v (processChunkLoop ?d1 r)"
    by (rule body_unicode.IH) (use body_unicode.prems b1 in simp_all)
  from collected_token [OF this, of d "[bs, lower_u, h1, h2, h3, h4]"] 
  show ?case
    using steps_unicode [OF body_unicode.prems body_unicode.hyps(1), of r] by simp
qed


subsection \<open>Finding the key\<close>


lemma match_rest:
  "stage d = SearchingKey \<Longrightarrow> keyIndex d = j \<Longrightarrow> j < length (keyPattern d) \<Longrightarrow>
   processChunkLoop d (drop j (keyPattern d)) = (d\<lparr>stage := AfterKey, keyIndex := 0\<rparr>, [])"
proof (induction "length (keyPattern d) - j" arbitrary: d j)
  case 0
  then show ?case by simp
next
  case (Suc n)
  let ?P = "keyPattern d"
  have dr: "drop j ?P = ?P ! j # drop (Suc j) ?P"
    using Suc.prems by (simp add: Cons_nth_drop_Suc)
  show ?case
  proof (cases "Suc j = length ?P")
    case True
    with Suc.prems dr show ?thesis
      by (simp add: processChar_def processKeyChar_def charAt_def)
  next
    case False
    let ?d1 = "d\<lparr>keyIndex := Suc j\<rparr>"
    have "processChunkLoop ?d1 (drop (Suc j) (keyPattern ?d1)) =
            (?d1\<lparr>stage := AfterKey, keyIndex := 0\<rparr>, [])"
      by (rule Suc.hyps(1)) (use Suc False in auto)
    with Suc.prems dr False show ?thesis
      by (simp add: processChar_def processKeyChar_def charAt_def)
  qed
qed

lemma search_no_occurrence:
  assumes "stage d = SearchingKey" "keyIndex d = 0" "keyPattern d \<noteq> []"
    and "\<forall>i. \<not> prefix (keyPattern d) (drop i t)"
  shows "\<exists>k < length (keyPattern d).
           processChunkLoop d t = (d\<lparr>keyIndex := k\<rparr>, []) \<and> suffix (take k (keyPattern d)) t"
  using assms(4)
proof (induction t rule: rev_induct)
  case Nil
  with assms show ?case by (intro exI [of _ 0]) simp
next
  case (snoc c t)
  let ?P = "keyPattern d"
  have "\<forall>i. \<not> prefix ?P (drop i t)"
  proof (intro allI notI)
    fix i assume p: "prefix ?P (drop i t)"
    with assms(3) have "i < length t" by (cases "i < length t") auto
    with p have "prefix ?P (drop i (t @ [c]))" by (auto simp: prefix_def)
    with snoc.prems show False by blast
  qed
  with snoc.IH obtain k where k: "k < length ?P"
    "processChunkLoop d t = (d\<lparr>keyIndex := k\<rparr>, [])" "suffix (take k ?P) t"
    by blast
  let ?d1 = "d\<lparr>keyIndex := k\<rparr>"
  have run: "processChunkLoop d (t @ [c]) = (processKeyChar ?d1 c, [])"
    using k(2) assms(1) by (simp add: loop_append processChar_def)
  show ?case
  proof (cases "c = ?P ! k")
    case True
    have tk: "take (Suc k) ?P = take k ?P @ [c]"
      using True k(1) by (simp add: take_Suc_conv_app_nth)
    show ?thesis
    proof (cases "Suc k = length ?P")
      case full: True
      from k(3) obtain u where u: "t = u @ take k ?P" by (auto simp: suffix_def)
      from tk full have "?P = take k ?P @ [c]" by simp
      with u have "t @ [c] = u @ ?P" by simp
      then have "prefix ?P (drop (length u) (t @ [c]))" by simp
      with snoc.prems show ?thesis by blast
    next
      case False
      with True k(1) have "processKeyChar ?d1 c = d\<lparr>keyIndex := Suc k\<rparr>"
        by (simp add: processKeyChar_def charAt_def)
      moreover have "suffix (take (Suc k) ?P) (t @ [c])"
        using k(3) tk by simp
      moreover have "Suc k < length ?P" using False k(1) by simp
      ultimately show ?thesis using run by auto
    qed
  next
    case False
    show ?thesis
    proof (cases "c = ?P ! 0")
      case c0: True
      with False have k0: "k \<noteq> 0" by (cases "k = 0") auto
      with k(1) have l1: "1 < length ?P" by simp
      from False c0 k(1) assms(3) have "processKeyChar ?d1 c = d\<lparr>keyIndex := 1\<rparr>"
        by (simp add: processKeyChar_def charAt_def)
      moreover have "take 1 ?P = [c]" using c0 assms(3) by (cases ?P) simp_all
      then have "suffix (take 1 ?P) (t @ [c])" by (simp add: suffix_def)
      ultimately show ?thesis using run l1 by auto
    next
      case c0: False
      from False c0 k(1) assms(3) have "processKeyChar ?d1 c = d\<lparr>keyIndex := 0\<rparr>"
        by (simp add: processKeyChar_def charAt_def)
      then show ?thesis using run assms(3) by (intro exI [of _ 0]) simp
    qed
  qed
qed

lemma find_key:
  assumes "stage d = SearchingKey" "keyIndex d = 0" "keyPattern d = dq # F @ [dq]"
    and "dq \<notin> set F"
    and "\<forall>i < length pre. \<not> prefix (keyPattern d) (drop i (pre @ keyPattern d))"
  shows "processChunkLoop d (pre @ keyPattern d) = (d\<lparr>stage := AfterKey\<rparr>, [])"
proof -
  let ?P = "keyPattern d"
  have ne: "?P \<noteq> []" using assms(3) by simp
  have "\<forall>i. \<not> prefix ?P (drop i pre)"
  proof (intro allI notI)
    fix i assume p: "prefix ?P (drop i pre)"
    with ne have i: "i < length pre" by (cases "i < length pre") auto
    with p have "prefix ?P (drop i (pre @ ?P))" by (auto simp: prefix_def)
    with assms(5) i show False by blast
  qed
  from search_no_occurrence [OF assms(1,2) ne this]
  obtain k where k: "k < length ?P"
    "processChunkLoop d pre = (d\<lparr>keyIndex := k\<rparr>, [])" "suffix (take k ?P) pre"
    by blast
  let ?d1 = "d\<lparr>keyIndex := k\<rparr>"
  have goal: "processChunkLoop ?d1 ?P = (d\<lparr>stage := AfterKey\<rparr>, [])"
  proof (cases "k = 0")
    case True
    have "d\<lparr>keyIndex := 0\<rparr> = d" "d\<lparr>stage := AfterKey, keyIndex := 0\<rparr> = d\<lparr>stage := AfterKey\<rparr>"
      using assms(2) by (cases d, simp)+
    have "processChunkLoop d (drop 0 ?P) = (d\<lparr>stage := AfterKey, keyIndex := 0\<rparr>, [])"
      by (rule match_rest) (use assms(1,2) ne in simp_all)
    then show ?thesis unfolding True \<open>d\<lparr>keyIndex := 0\<rparr> = d\<close>
        \<open>d\<lparr>stage := AfterKey, keyIndex := 0\<rparr> = d\<lparr>stage := AfterKey\<rparr>\<close> by simp
  next
    case False
    have nlast: "Suc k \<noteq> length ?P"
    proof
      assume full: "Suc k = length ?P"
      then have tk: "take k ?P = dq # F" using assms(3) by simp
      with k(3) obtain u where u: "pre = u @ dq # F" by (auto simp: suffix_def)
      then have "pre @ ?P = u @ ?P @ F @ [dq]" using assms(3) by simp
      then have "prefix ?P (drop (length u) (pre @ ?P))" by simp
      moreover have "length u < length pre" using u by simp
      ultimately show False using assms(5) by blast
    qed
    with False k(1) have "?P ! k \<in> set F"
      using assms(3) by (cases k) (auto simp: nth_append)
    with assms(4) have ne: "dq \<noteq> ?P ! k" by auto
    have P0: "?P = dq # drop 1 ?P" using assms(3) by simp
    have l1: "1 < length ?P" using assms(3) by simp
    let ?d2 = "d\<lparr>keyIndex := 1\<rparr>"
    have "processChar ?d1 dq = (?d2, [])"
      using ne k(1) assms(1,3) by (simp add: processChar_def processKeyChar_def charAt_def)
    moreover have "processChunkLoop ?d2 (drop 1 (keyPattern ?d2)) = (?d2\<lparr>stage := AfterKey, keyIndex := 0\<rparr>, [])"
      by (rule match_rest) (use assms(1) l1 in simp_all)
    ultimately have "processChunkLoop ?d1 (dq # drop 1 ?P) = (d\<lparr>stage := AfterKey\<rparr>, [])"
      using assms(1,2) by simp
    with P0 show ?thesis by simp
  qed
  show ?thesis using k(2) goal by (simp add: loop_append)
qed


lemma loop_seq:
  "processChunkLoop d xs = (d1, e1) \<Longrightarrow> processChunkLoop d1 ys = (d2, e2) \<Longrightarrow>
   processChunkLoop d (xs @ ys) = (d2, e1 @ e2)"
  by (simp add: loop_append)

lemma ws_not_colon: "isWhitespace c \<Longrightarrow> c \<noteq> colon"
  by (auto simp: isWhitespace_def colon_def)

lemma dq_not_whitespace: "\<not> isWhitespace dq"
  by (simp add: isWhitespace_def dq_def)

lemma dq_neq_colon: "dq \<noteq> colon" by (simp add: dq_def colon_def)

lemma skip_ws_AfterKey:
  "stage d = AfterKey \<Longrightarrow> list_all isWhitespace ws \<Longrightarrow> processChunkLoop d ws = (d, [])"
  by (induction ws) (simp_all add: processChar_def processPostKeyChar_def ws_not_colon)

lemma skip_ws_Waiting:
  "stage d = WaitingForStringStart \<Longrightarrow> list_all isWhitespace ws \<Longrightarrow>
   processChunkLoop d ws = (d, [])"
  by (induction ws) (simp_all add: processChar_def processStringStartChar_def)

lemma after_key_to_collecting:
  assumes "stage d = AfterKey" "list_all isWhitespace ws1" "list_all isWhitespace ws2"
  shows "processChunkLoop d (ws1 @ [colon] @ ws2 @ [dq]) =
     (d\<lparr>stage := Collecting, collectingBuffer := [], escapeActive := False,
         unicodeDigitsRemaining := 0, lastEmittedLength := 0\<rparr>, [])"
  using assms
  by (simp add: loop_append skip_ws_AfterKey skip_ws_Waiting processChar_def
      processPostKeyChar_def processStringStartChar_def dq_not_whitespace)

lemma finish_value:
  assumes "stage d = Collecting" "\<not> escapeActive d" "unicodeDigitsRemaining d = 0"
    and "body (collectingBuffer d) v" "lastEmittedLength d = length v"
  shows "processChunkLoop d (dq # post) =
     (d\<lparr>stage := Complete, collectingBuffer := [], escapeActive := False,
         unicodeDigitsRemaining := 0\<rparr>, [OnComplete (field d) v])"
  using assms body_snoc [OF assms(4) body_Nil]
  by (simp add: processChar_def processValueChar_def finalizeValue_def bs_neq_dq [symmetric]
      loop_Complete)


subsection \<open>Key tokens that are not followed by a string value\<close>

text \<open>After a key token the decoder waits for a colon and an opening quote.
  Any other character sends it back to the search, and that character is
  looked at again as a possible start of the key.\<close>

lemma search_state:
  "stage d = SearchingKey \<Longrightarrow> keyIndex d = 0 \<Longrightarrow>
   d\<lparr>stage := SearchingKey, keyIndex := 0\<rparr> = d"
  by (cases d) simp

lemma reprocess_AfterKey:
  assumes "stage d = SearchingKey" "keyIndex d = 0" "\<not> isWhitespace c" "c \<noteq> colon"
  shows "processChar (d\<lparr>stage := AfterKey\<rparr>) c = processChar d c"
  using assms(1,3,4)
  by (simp add: processChar_def processPostKeyChar_def resetSearchAndReprocess_def
      search_state [OF assms(1,2)])

lemma reprocess_Waiting:
  assumes "stage d = SearchingKey" "keyIndex d = 0" "\<not> isWhitespace c" "c \<noteq> dq"
  shows "processChar (d\<lparr>stage := WaitingForStringStart\<rparr>) c = processChar d c"
  using assms(1,3,4)
  by (simp add: processChar_def processStringStartChar_def resetSearchAndReprocess_def
      search_state [OF assms(1,2)])

lemma skip_ws_prefix_AfterKey:
  "stage d = AfterKey \<Longrightarrow> list_all isWhitespace w \<Longrightarrow>
   processChunkLoop d (w @ xs) = processChunkLoop d xs"
  by (simp add: loop_append skip_ws_AfterKey)

lemma skip_ws_prefix_Waiting:
  "stage d = WaitingForStringStart \<Longrightarrow> list_all isWhitespace w \<Longrightarrow>
   processChunkLoop d (w @ xs) = processChunkLoop d xs"
  by (simp add: loop_append skip_ws_Waiting)

lemma split_whitespace:
  "\<exists>w. list_all isWhitespace w \<and> b = w @ dropWhile isWhitespace b"
  by (intro exI [of _ "takeWhile isWhitespace b"])
     (auto simp: list_all_iff dest: set_takeWhileD)

lemma dropWhile_ws_skip:
  "list_all isWhitespace w \<Longrightarrow> dropWhile isWhitespace (w @ xs) = dropWhile isWhitespace xs"
  by (simp add: list_all_iff)

lemma dropWhile_head: "dropWhile isWhitespace b = c # r \<Longrightarrow> \<not> isWhitespace c"
  using hd_dropWhile [of isWhitespace b] by auto

lemma false_positive_skipped:
  assumes "stage d = SearchingKey" "keyIndex d = 0"
    and "\<not> valueFollows (b @ dq # X)"
  shows "\<exists>s b'. b = s @ b' \<and>
           processChunkLoop (d\<lparr>stage := AfterKey\<rparr>) (b @ dq # Y) =
             processChunkLoop d (b' @ dq # Y)"
proof -
  let ?dA = "d\<lparr>stage := AfterKey\<rparr>"
  let ?dW = "d\<lparr>stage := WaitingForStringStart\<rparr>"
  obtain w where w: "list_all isWhitespace w" "b = w @ dropWhile isWhitespace b"
    using split_whitespace by blast
  show ?thesis
  proof (cases "dropWhile isWhitespace b")
    case Nil
    with w have b: "b = w" by simp
    have "processChunkLoop ?dA (b @ dq # Y) = processChunkLoop ?dA (dq # Y)"
      unfolding b using w(1) by (simp add: skip_ws_prefix_AfterKey)
    also have "\<dots> = processChunkLoop d (dq # Y)"
      using reprocess_AfterKey [OF assms(1,2) dq_not_whitespace dq_neq_colon] assms(1)
      by simp
    finally show ?thesis by (intro exI [of _ b] exI [of _ "[]"]) simp
  next
    case (Cons c b1)
    then have nws: "\<not> isWhitespace c" by (rule dropWhile_head)
    from w Cons have b: "b = w @ c # b1" by simp
    have skip: "processChunkLoop ?dA (b @ dq # Y) = processChunkLoop ?dA (c # b1 @ dq # Y)"
      unfolding b using w(1) skip_ws_prefix_AfterKey [of ?dA w "c # b1 @ dq # Y"] by simp
    show ?thesis
    proof (cases "c = colon")
      case False
      have "processChunkLoop ?dA (c # b1 @ dq # Y) = processChunkLoop d (c # b1 @ dq # Y)"
        using reprocess_AfterKey [OF assms(1,2) nws False] assms(1) by simp
      with skip show ?thesis unfolding b
        by (intro exI [of _ w] exI [of _ "c # b1"]) simp
    next
      case True
      have toW: "processChunkLoop ?dA (c # b1 @ dq # Y) = processChunkLoop ?dW (b1 @ dq # Y)"
        using True by (simp add: processChar_def processPostKeyChar_def)
      obtain w2 where w2: "list_all isWhitespace w2" "b1 = w2 @ dropWhile isWhitespace b1"
        using split_whitespace by blast
      have vf: "valueFollows (b @ dq # X) =
          (case dropWhile isWhitespace (b1 @ dq # X) of [] \<Rightarrow> False | c2 # r2 \<Rightarrow> c2 = dq)"
        unfolding b using w(1) nws True
        by (simp add: valueFollows_def dropWhile_ws_skip)
      show ?thesis
      proof (cases "dropWhile isWhitespace b1")
        case Nil
        with w2 have "b1 = w2" by simp
        with w2(1) have "dropWhile isWhitespace (b1 @ dq # X) = dq # X"
          using dropWhile_ws_skip [of w2 "dq # X"] by (simp add: dq_not_whitespace)
        with vf assms(3) show ?thesis by simp
      next
        case c2: (Cons c2 b2)
        then have nws2: "\<not> isWhitespace c2" by (rule dropWhile_head)
        from w2 c2 have b1: "b1 = w2 @ c2 # b2" by simp
        have "dropWhile isWhitespace (b1 @ dq # X) = c2 # b2 @ dq # X"
          unfolding b1 using w2(1) nws2 dropWhile_ws_skip [of w2 "c2 # b2 @ dq # X"] by simp
        with vf assms(3) have ndq: "c2 \<noteq> dq" by simp
        have "processChunkLoop ?dW (b1 @ dq # Y) = processChunkLoop ?dW (c2 # b2 @ dq # Y)"
          unfolding b1 using w2(1) skip_ws_prefix_Waiting [of ?dW w2 "c2 # b2 @ dq # Y"] by simp
        also have "\<dots> = processChunkLoop d (c2 # b2 @ dq # Y)"
          using reprocess_Waiting [OF assms(1,2) nws2 ndq] assms(1) by simp
        finally have "processChunkLoop ?dA (b @ dq # Y) = processChunkLoop d (c2 # b2 @ dq # Y)"
          using skip toW by simp
        then show ?thesis unfolding b b1
          by (intro exI [of _ "w @ c # w2"] exI [of _ "c2 # b2"]) simp
      qed
    qed
  qed
qed


lemma skipped_suffix:
  assumes "\<forall>i<length (s @ pre'). prefix p (drop i ((s @ pre') @ rest)) \<longrightarrow>
             i + length p \<le> length (s @ pre') \<and>
             \<not> valueFollows (drop (i + length p) ((s @ pre') @ rest))"
  shows "\<forall>j<length pre'. prefix p (drop j (pre' @ rest)) \<longrightarrow>
             j + length p \<le> length pre' \<and>
             \<not> valueFollows (drop (j + length p) (pre' @ rest))"
proof (intro allI impI)
  fix j assume j: "j < length pre'" and p: "prefix p (drop j (pre' @ rest))"
  have d1: "drop (length s + j) ((s @ pre') @ rest) = drop j (pre' @ rest)" by simp
  have d2: "drop (length s + j + length p) ((s @ pre') @ rest) =
            drop (j + length p) (pre' @ rest)" by (simp add: add.assoc)
  have lt: "length s + j < length (s @ pre')" using j by simp
  have pp: "prefix p (drop (length s + j) ((s @ pre') @ rest))" unfolding d1 by (rule p)
  from assms [rule_format, OF lt pp]
  have A: "length s + j + length p \<le> length (s @ pre')"
    and B: "\<not> valueFollows (drop (length s + j + length p) ((s @ pre') @ rest))" by blast+
  from A have "j + length p \<le> length pre'" by simp
  moreover from B have "\<not> valueFollows (drop (j + length p) (pre' @ rest))" unfolding d2 .
  ultimately show "j + length p \<le> length pre' \<and>
             \<not> valueFollows (drop (j + length p) (pre' @ rest))" by blast
qed

lemma prefix_short:
  assumes "prefix p (x @ y)" "length p \<le> length x"
  shows "prefix p x"
proof -
  from assms(1) have "prefix p x \<or> (\<exists>us. p = x @ us \<and> prefix us y)"
    by (simp add: prefix_append)
  then show ?thesis
  proof
    assume "\<exists>us. p = x @ us \<and> prefix us y"
    then obtain us where "p = x @ us" by blast
    with assms(2) show ?thesis by simp
  qed simp
qed

lemma drop_exact: "n = length xs \<Longrightarrow> drop n (xs @ ys) = ys"
  by simp

lemma reach_key:
  assumes "dq \<notin> set F" "stage d = SearchingKey" "keyIndex d = 0"
    and "keyPattern d = dq # F @ [dq]"
  shows "\<forall>i<length pre. prefix (keyPattern d) (drop i (pre @ keyPattern d @ tail)) \<longrightarrow>
             i + length (keyPattern d) \<le> length pre \<and>
             \<not> valueFollows (drop (i + length (keyPattern d)) (pre @ keyPattern d @ tail))
         \<Longrightarrow> processChunkLoop d (pre @ keyPattern d) = (d\<lparr>stage := AfterKey\<rparr>, [])"
proof (induction "length pre" arbitrary: pre rule: less_induct)
  case less
  let ?P = "keyPattern d"
  let ?n = "length ?P"
  have n2: "2 \<le> ?n" using assms(4) by simp
  show ?case
  proof (cases "\<exists>i<length pre. prefix ?P (drop i (pre @ ?P))")
    case False
    then have "\<forall>i<length pre. \<not> prefix ?P (drop i (pre @ ?P))" by blast
    with find_key [OF assms(2,3,4,1)] show ?thesis by blast
  next
    case True
    then have "\<exists>i. i < length pre \<and> prefix ?P (drop i (pre @ ?P))" by blast
    then obtain i where i: "i < length pre" "prefix ?P (drop i (pre @ ?P))"
      and least: "\<forall>j<i. \<not> (j < length pre \<and> prefix ?P (drop j (pre @ ?P)))"
      unfolding exists_least_iff [of "\<lambda>i. i < length pre \<and> prefix ?P (drop i (pre @ ?P))"]
      by blast
    have e1: "drop i (pre @ ?P @ tail) = drop i (pre @ ?P) @ tail" using i(1) by simp
    from i(2) obtain zs where zs: "drop i (pre @ ?P) = ?P @ zs" unfolding prefix_def by blast
    have occ: "prefix ?P (drop i (pre @ ?P @ tail))" unfolding e1 zs by simp
    from less.prems [rule_format, OF i(1) occ]
    have inside: "i + ?n \<le> length pre"
      and nov: "\<not> valueFollows (drop (i + ?n) (pre @ ?P @ tail))" by blast+
    define a where "a = take i pre"
    define b where "b = drop (i + ?n) pre"
    have la: "length a = i" using i(1) by (simp add: a_def)
    have e2: "drop i (pre @ ?P) = drop i pre @ ?P" using i(1) by simp
    from i(2) have "prefix ?P (drop i pre @ ?P)" unfolding e2 .
    moreover have "?n \<le> length (drop i pre)" using inside by simp
    ultimately have "prefix ?P (drop i pre)" by (rule prefix_short)
    then obtain r where r: "drop i pre = ?P @ r" by (auto simp: prefix_def)
    then have "drop ?n (drop i pre) = r" by simp
    then have rb: "r = b" by (simp add: b_def add.commute)
    have pre: "pre = a @ ?P @ b"
      using r rb append_take_drop_id [of i pre] by (simp add: a_def)
    have first: "\<forall>j<length a. \<not> prefix ?P (drop j (a @ ?P))"
    proof (intro allI impI notI)
      fix j assume j: "j < length a" and p: "prefix ?P (drop j (a @ ?P))"
      have e3: "drop j (pre @ ?P) = drop j (a @ ?P) @ b @ ?P"
        unfolding pre using j by simp
      from p obtain ys where ys: "drop j (a @ ?P) = ?P @ ys" unfolding prefix_def by blast
      have "prefix ?P (drop j (pre @ ?P))" unfolding e3 ys by simp
      moreover have "j < i" "j < length pre" using j la i(1) by simp_all
      ultimately show False using least by blast
    qed
    have s1: "processChunkLoop d (a @ ?P) = (d\<lparr>stage := AfterKey\<rparr>, [])"
      by (rule find_key [OF assms(2,3,4,1) first])
    have e5: "pre @ ?P @ tail = (a @ ?P) @ (b @ ?P @ tail)" unfolding pre by simp
    have "i + ?n = length (a @ ?P)" using la by simp
    then have e4: "drop (i + ?n) (pre @ ?P @ tail) = b @ ?P @ tail"
      unfolding e5 by (rule drop_exact)
    have "b @ ?P @ tail = b @ dq # (F @ [dq] @ tail)" using assms(4) by simp
    with nov e4 have nov': "\<not> valueFollows (b @ dq # (F @ [dq] @ tail))" by simp
    from false_positive_skipped [OF assms(2,3) nov', of "F @ [dq]"]
    obtain s b' where sb: "b = s @ b'"
      and skip: "processChunkLoop (d\<lparr>stage := AfterKey\<rparr>) (b @ dq # F @ [dq]) =
                 processChunkLoop d (b' @ dq # F @ [dq])" by blast
    have pre': "pre = (a @ ?P @ s) @ b'" unfolding pre sb by simp
    have "0 < ?n" using n2 by linarith
    moreover have "length pre = length a + ?n + length s + length b'" unfolding pre sb by simp
    ultimately have shorter: "length b' < length pre" by linarith
    have "\<forall>j<length b'. prefix ?P (drop j (b' @ ?P @ tail)) \<longrightarrow>
             j + ?n \<le> length b' \<and> \<not> valueFollows (drop (j + ?n) (b' @ ?P @ tail))"
      by (rule skipped_suffix [of "a @ ?P @ s" b' ?P "?P @ tail"])
         (use less.prems pre' in simp)
    from less.hyps [OF shorter this]
    have "processChunkLoop d (b' @ ?P) = (d\<lparr>stage := AfterKey\<rparr>, [])" .
    with skip assms(4)
    have s2: "processChunkLoop (d\<lparr>stage := AfterKey\<rparr>) (b @ ?P) = (d\<lparr>stage := AfterKey\<rparr>, [])"
      by simp
    have "pre @ ?P = (a @ ?P) @ (b @ ?P)" unfolding pre by simp
    with loop_seq [OF s1 s2] show ?thesis by simp
  qed
qed

subsection \<open>A broken unicode escape\<close>


lemma hex4_None:
  "hexValue a = None \<or> hexValue b = None \<or> hexValue c = None \<or> hexValue d = None
   \<Longrightarrow> hex4 a b c d = None"
  by (auto simp: hex4_def split: option.splits)

lemma decodeBody_unicode:
  "decodeBody (bs # lower_u # r) =
     (if length r < 4 then None
      else case hex4 (r ! 0) (r ! 1) (r ! 2) (r ! 3) of
             None \<Rightarrow> None
           | Some x \<Rightarrow> map_option ((#) x) (decodeBody (drop 4 r)))"
proof (cases r)
  case Nil
  then show ?thesis by (simp add: bs_neq_dq)
next
  case r1: (Cons h1 r1)
  show ?thesis
  proof (cases r1)
    case Nil
    with r1 show ?thesis by (simp add: bs_neq_dq)
  next
    case r2: (Cons h2 r2)
    show ?thesis
    proof (cases r2)
      case Nil
      with r1 r2 show ?thesis by (simp add: bs_neq_dq)
    next
      case r3: (Cons h3 r3)
      show ?thesis
      proof (cases r3)
        case Nil
        with r1 r2 r3 show ?thesis by (simp add: bs_neq_dq)
      next
        case r4: (Cons h4 r4)
        show ?thesis unfolding r1 r2 r3 r4 by (simp add: bs_neq_dq split: option.splits)
      qed
    qed
  qed
qed

lemma unicode_dead:
  assumes "length ds < 4" "hexValue c = None"
  shows "decodeBody (bs # lower_u # ds @ c # ext) = None"
proof -
  let ?r = "ds @ c # ext"
  have c: "?r ! length ds = c" by simp
  have "hex4 (?r ! 0) (?r ! 1) (?r ! 2) (?r ! 3) = None"
  proof (rule hex4_None)
    from assms(1) have "length ds = 0 \<or> length ds = 1 \<or> length ds = 2 \<or> length ds = 3"
      by arith
    with c assms(2)
    show "hexValue (?r ! 0) = None \<or> hexValue (?r ! 1) = None \<or>
          hexValue (?r ! 2) = None \<or> hexValue (?r ! 3) = None"
      by metis
  qed
  then show ?thesis
    by (simp only: decodeBody_unicode option.case if_cancel)
qed

lemma emitDelta_dead:
  "JSON_parse_quoted (collectingBuffer d) = None \<Longrightarrow> emitDelta d = (d, [])"
  by (simp add: emitDelta_def)

lemma finalizeValue_dead:
  "JSON_parse_quoted (collectingBuffer d) = None \<Longrightarrow>
   finalizeValue d = (d\<lparr>stage := Complete, collectingBuffer := [], escapeActive := False,
               unicodeDigitsRemaining := 0\<rparr>, [])"
  by (simp add: finalizeValue_def)

lemma loop_Cons_snd:
  "stage d \<noteq> Complete \<Longrightarrow>
   snd (processChunkLoop d (c # cs)) =
     snd (processChar d c) @ snd (processChunkLoop (fst (processChar d c)) cs)"
  by (simp split: prod.splits)

lemma dead_step:
  assumes "stage d = Collecting"
    and "\<forall>ext. JSON_parse_quoted (collectingBuffer d @ ext) = None"
  shows "snd (processValueChar d c) = [] \<and>
         (stage (fst (processValueChar d c)) = Complete \<or>
          stage (fst (processValueChar d c)) = Collecting \<and>
          (\<forall>ext. JSON_parse_quoted (collectingBuffer (fst (processValueChar d c)) @ ext) = None))"
proof -
  from assms(2) have d0: "JSON_parse_quoted (collectingBuffer d) = None"
    by (metis append_Nil2)
  from assms(2) have d1: "JSON_parse_quoted (collectingBuffer d @ ext) = None" for ext
    by blast
  show ?thesis
    using assms(1)
    by (simp add: processValueChar_def Let_def emitDelta_dead finalizeValue_dead d0 d1)
qed

lemma dead_run:
  "stage d = Complete \<or>
     stage d = Collecting \<and> (\<forall>ext. JSON_parse_quoted (collectingBuffer d @ ext) = None)
   \<Longrightarrow> snd (processChunkLoop d rest) = []"
proof (induction rest arbitrary: d)
  case Nil
  show ?case by simp
next
  case (Cons c rest)
  show ?case
  proof (cases "stage d = Complete")
    case True
    then show ?thesis by simp
  next
    case False
    with Cons.prems have col: "stage d = Collecting"
      and dead: "\<forall>ext. JSON_parse_quoted (collectingBuffer d @ ext) = None" by auto
    note st = dead_step [OF col dead, of c]
    have pc: "processChar d c = processValueChar d c"
      using col by (simp add: processChar_def)
    from st have "snd (processChunkLoop (fst (processValueChar d c)) rest) = []"
      by (intro Cons.IH) blast
    with st False pc show ?thesis
      by (simp add: loop_Cons_snd del: processChunkLoop.simps)
  qed
qed

subsection \<open>The escape state and the buffer\<close>

lemma lexical_append: "lexical a \<Longrightarrow> lexical b \<Longrightarrow> lexical (a @ b)"
  by (induction rule: lexical.induct) (auto intro: lexical.intros)

lemma valid_or_dead:
  "lexical b \<Longrightarrow> (\<exists>v. body b v) \<or> (\<forall>ext. decodeBody (b @ ext) = None)"
proof (induction rule: lexical.induct)
  case lex_Nil
  show ?case by (auto intro: body.intros)
next
  case (lex_plain c r)
  show ?case
  proof (cases "c < 0x20")
    case True
    with lex_plain.hyps show ?thesis by simp
  next
    case False
    from lex_plain.IH show ?thesis
    proof
      assume "\<exists>v. body r v"
      with lex_plain.hyps False show ?thesis by (auto intro: body.intros)
    next
      assume "\<forall>ext. decodeBody (r @ ext) = None"
      with lex_plain.hyps show ?thesis by simp
    qed
  qed
next
  case (lex_simple e r)
  show ?case
  proof (cases "simpleEscape e")
    case None
    with lex_simple.hyps show ?thesis by (simp add: bs_neq_dq)
  next
    case (Some x)
    from lex_simple.IH show ?thesis
    proof
      assume "\<exists>v. body r v"
      with lex_simple.hyps Some show ?thesis by (auto intro: body.intros)
    next
      assume "\<forall>ext. decodeBody (r @ ext) = None"
      with lex_simple.hyps show ?thesis by (simp add: bs_neq_dq split: option.splits)
    qed
  qed
next
  case (lex_unicode r h1 h2 h3 h4)
  show ?case
  proof (cases "hex4 h1 h2 h3 h4")
    case None
    then show ?thesis by (simp add: bs_neq_dq)
  next
    case (Some x)
    from lex_unicode.IH show ?thesis
    proof
      assume "\<exists>v. body r v"
      with Some show ?thesis by (auto intro: body.intros)
    next
      assume "\<forall>ext. decodeBody (r @ ext) = None"
      then show ?thesis by (simp add: bs_neq_dq split: option.splits)
    qed
  qed
qed

lemma emitDelta_keeps:
  "stage (fst (emitDelta d)) = stage d \<and>
   collectingBuffer (fst (emitDelta d)) = collectingBuffer d \<and>
   escapeActive (fst (emitDelta d)) = escapeActive d \<and>
   unicodeDigitsRemaining (fst (emitDelta d)) = unicodeDigitsRemaining d"
  by (simp add: emitDelta_def split: option.splits)

lemma pendingEscape_emitDelta: "pendingEscape (fst (emitDelta d)) = pendingEscape d"
  by (simp add: pendingEscape_def emitDelta_keeps)

lemma processKeyChar_stage:
  "stage d \<noteq> Collecting \<Longrightarrow> stage (processKeyChar d c) \<noteq> Collecting"
  by (simp add: processKeyChar_def)

lemma pendingEscape_step:
  assumes "pendingEscape d"
  shows "pendingEscape (fst (processChar d c))"
proof (cases "stage d")
  case SearchingKey
  then show ?thesis
    by (simp add: processChar_def pendingEscape_def processKeyChar_def)
next
  case AfterKey
  then show ?thesis
    by (simp add: processChar_def pendingEscape_def processPostKeyChar_def
        resetSearchAndReprocess_def processKeyChar_def)
next
  case WaitingForStringStart
  have "lexical []" by (rule lex_Nil)
  with WaitingForStringStart show ?thesis
    by (auto simp: processChar_def pendingEscape_def processStringStartChar_def
        resetSearchAndReprocess_def processKeyChar_def)
next
  case Complete
  then show ?thesis by (simp add: processChar_def pendingEscape_def)
next
  case Collecting
  with assms obtain b where b: "lexical b"
    and cases3: "\<not> escapeActive d \<and> unicodeDigitsRemaining d = 0 \<and> collectingBuffer d = b \<or>
            escapeActive d \<and> unicodeDigitsRemaining d = 0 \<and> collectingBuffer d = b @ [bs] \<or>
            unicodeDigitsRemaining d > 0 \<and>
              (\<exists>ds. collectingBuffer d = b @ bs # lower_u # ds \<and>
                    length ds + unicodeDigitsRemaining d = 4)"
    by (auto simp: pendingEscape_def)
  have pc: "processChar d c = processValueChar d c"
    using Collecting by (simp add: processChar_def)
  from cases3 show ?thesis
  proof (elim disjE conjE exE)
    assume n: "\<not> escapeActive d" "unicodeDigitsRemaining d = 0" "collectingBuffer d = b"
    show ?thesis
    proof (cases "c = bs")
      case True
      with n b Collecting show ?thesis
        unfolding pc by (auto simp: processValueChar_def pendingEscape_def)
    next
      case nbs: False
      show ?thesis
      proof (cases "c = dq")
        case True
        with n nbs show ?thesis
          unfolding pc by (simp add: processValueChar_def pendingEscape_def finalizeValue_def
              split: option.splits)
      next
        case False
        have "lexical (b @ [c])"
          using b nbs False by (intro lexical_append) (auto intro: lexical.intros)
        with n have "pendingEscape (d\<lparr>collectingBuffer := collectingBuffer d @ [c]\<rparr>)"
          by (auto simp: pendingEscape_def)
        moreover have "processValueChar d c =
            emitDelta (d\<lparr>collectingBuffer := collectingBuffer d @ [c]\<rparr>)"
          using n nbs False by (simp add: processValueChar_def)
        ultimately show ?thesis
          unfolding pc by (simp add: pendingEscape_emitDelta)
      qed
    qed
  next
    assume e: "escapeActive d" "unicodeDigitsRemaining d = 0" "collectingBuffer d = b @ [bs]"
    show ?thesis
    proof (cases "c = lower_u")
      case True
      with e b Collecting show ?thesis
        unfolding pc by (auto simp: processValueChar_def pendingEscape_def Let_def)
    next
      case False
      have "lexical (b @ [bs, c])"
        using b False by (intro lexical_append) (auto intro: lexical.intros)
      with e have "pendingEscape (d\<lparr>collectingBuffer := collectingBuffer d @ [c],
          escapeActive := False\<rparr>)"
        by (auto simp: pendingEscape_def)
      moreover have "processValueChar d c =
          emitDelta (d\<lparr>collectingBuffer := collectingBuffer d @ [c], escapeActive := False\<rparr>)"
        using e False by (simp add: processValueChar_def Let_def)
      ultimately show ?thesis
        unfolding pc by (simp add: pendingEscape_emitDelta)
    qed
  next
    fix ds
    assume u: "unicodeDigitsRemaining d > 0" "collectingBuffer d = b @ bs # lower_u # ds"
      "length ds + unicodeDigitsRemaining d = 4"
    show ?thesis
    proof (cases "unicodeDigitsRemaining d = 1")
      case True
      with u(3) have "length ds = 3" by simp
      then obtain h1 h2 h3 where ds: "ds = [h1, h2, h3]"
        by (cases ds; cases "tl ds"; cases "tl (tl ds)") auto
      have "lexical (b @ [bs, lower_u, h1, h2, h3, c])"
        using b by (intro lexical_append) (auto intro: lexical.intros)
      with u ds have "pendingEscape (d\<lparr>collectingBuffer := collectingBuffer d @ [c],
          unicodeDigitsRemaining := 0, escapeActive := False\<rparr>)"
        by (auto simp: pendingEscape_def)
      moreover have "processValueChar d c =
          emitDelta (d\<lparr>collectingBuffer := collectingBuffer d @ [c],
            unicodeDigitsRemaining := 0, escapeActive := False\<rparr>)"
        using u True by (simp add: processValueChar_def Let_def)
      ultimately show ?thesis
        unfolding pc by (simp add: pendingEscape_emitDelta)
    next
      case False
      let ?d1 = "d\<lparr>collectingBuffer := collectingBuffer d @ [c],
          unicodeDigitsRemaining := unicodeDigitsRemaining d - 1\<rparr>"
      have "\<exists>ds'. collectingBuffer d @ [c] = b @ bs # lower_u # ds' \<and>
          length ds' + (unicodeDigitsRemaining d - 1) = 4"
        using u False by (intro exI [of _ "ds @ [c]"]) simp
      with b u False have "pendingEscape ?d1"
        unfolding pendingEscape_def by auto
      moreover have "processValueChar d c = (?d1, [])"
        using u False by (simp add: processValueChar_def Let_def)
      ultimately show ?thesis
        unfolding pc by simp
    qed
  qed
qed

lemma loop_Cons_fst:
  "stage d \<noteq> Complete \<Longrightarrow>
   fst (processChunkLoop d (c # cs)) = fst (processChunkLoop (fst (processChar d c)) cs)"
  by (simp split: prod.splits)

lemma pendingEscape_loop:
  "pendingEscape d \<Longrightarrow> pendingEscape (fst (processChunkLoop d cs))"
proof (induction cs arbitrary: d)
  case Nil
  then show ?case by simp
next
  case (Cons c cs)
  show ?case
  proof (cases "stage d = Complete")
    case True
    with Cons.prems show ?thesis by simp
  next
    case False
    from Cons.IH [OF pendingEscape_step [OF Cons.prems, of c]] False
    show ?thesis by (simp add: loop_Cons_fst del: processChunkLoop.simps)
  qed
qed

lemma pendingEscape_reachable:
  "pendingEscape (fst (processChunks (newDecoder F) chunks))"
  unfolding chunks_concat
  by (rule pendingEscape_loop) (simp add: pendingEscape_def newDecoder_def)


lemma countdown_dead:
  assumes "pendingEscape d" "stage d = Collecting" "unicodeDigitsRemaining d > 0"
    and "hexValue c = None"
  shows "JSON_parse_quoted (collectingBuffer d @ c # ext) = None"
proof -
  from assms(1-3) obtain b ds where b: "lexical b"
    and buf: "collectingBuffer d = b @ bs # lower_u # ds"
    and len: "length ds + unicodeDigitsRemaining d = 4"
    by (auto simp: pendingEscape_def)
  from len assms(3) have l4: "length ds < 4" by simp
  have e: "collectingBuffer d @ c # ext = b @ (bs # lower_u # ds @ c # ext)"
    using buf by simp
  from valid_or_dead [OF b] show ?thesis
  proof
    assume "\<exists>v. body b v"
    then obtain v where "body b v" ..
    then show ?thesis
      by (simp only: e JSON_parse_quoted_decodeBody body_decodeBody_append
          unicode_dead [OF l4 assms(4)] option.map)
  next
    assume "\<forall>ext. decodeBody (b @ ext) = None"
    then show ?thesis
      by (simp only: e JSON_parse_quoted_decodeBody)
  qed
qed

section \<open>Properties of the terminal execute stream\<close>



lemma handedRows_append: "handedRows (xs @ ys) = handedRows xs @ handedRows ys"
  by (induction xs rule: handedRows.induct) simp_all

lemma persistedRows_append: "persistedRows (xs @ ys) = persistedRows xs @ persistedRows ys"
  by (induction xs rule: persistedRows.induct) simp_all

lemma storedSummary_append:
  "storedSummary (xs @ ys) =
     (case storedSummary ys of Some s \<Rightarrow> Some s | None \<Rightarrow> storedSummary xs)"
  by (induction xs) (simp_all split: option.splits)

lemma enqueue_open:
  "cancelAfter e = None \<Longrightarrow> enqueue e st x = (None, st\<lparr>trace := trace st @ [Enqueue x]\<rparr>)"
  by (simp add: enqueue_def controllerClosed_def)

lemma closeController_open:
  "cancelAfter e = None \<Longrightarrow> closeController e st = (None, st\<lparr>trace := trace st @ [Close]\<rparr>)"
  by (simp add: closeController_def controllerClosed_def)

lemma flushEvents_trace:
  "\<exists>f. trace (flushEvents e st) = trace st @ FlushEvents # f \<and> list_all plainAction f \<and>
       handedRows f = eventBatch st \<and> FlushEvents \<notin> set f"
  by (simp add: flushEvents_def Let_def)

lemma flushEvents_batch: "eventBatch (flushEvents e st) = []"
  by (simp add: flushEvents_def Let_def)

lemma accumulate_trace: "trace (accumulate st ev) = trace st"
  by (simp add: accumulate_def Let_def split: ExecuteEvent.splits option.splits)

lemma accumulate_batch: "eventBatch (accumulate st ev) = eventBatch st"
  by (simp add: accumulate_def Let_def split: ExecuteEvent.splits option.splits)

lemma handleEvent_open:
  assumes "cancelAfter e = None"
  shows "\<exists>st' x. handleEvent e st item = (None, st') \<and> trace st' = trace st @ x \<and>
           list_all plainAction x \<and>
           handedRows x @ eventBatch st' =
             eventBatch st @ [\<lparr>pSessionId = sessionId e, pEvent = fst item\<rparr>]"
proof -
  obtain ev now where item: "item = (ev, now)" by (cases item)
  let ?st2 = "st\<lparr>trace := trace st @ [Enqueue (ClientEvent ev)],
                 eventBatch := eventBatch st @ [\<lparr>pSessionId = sessionId e, pEvent = ev\<rparr>]\<rparr>"
  let ?st3 = "accumulate ?st2 ev"
  have t3: "trace ?st3 = trace st @ [Enqueue (ClientEvent ev)]"
    by (simp add: accumulate_trace)
  have b3: "eventBatch ?st3 = eventBatch st @ [\<lparr>pSessionId = sessionId e, pEvent = ev\<rparr>]"
    by (simp add: accumulate_batch)
  show ?thesis
  proof (cases "now - lastFlush ?st3 > 200")
    case True
    from flushEvents_trace [of e ?st3] obtain f where
      f: "trace (flushEvents e ?st3) = trace ?st3 @ FlushEvents # f" "list_all plainAction f"
         "handedRows f = eventBatch ?st3" by blast
    have "handleEvent e st item = (None, (flushEvents e ?st3)\<lparr>lastFlush := now\<rparr>)"
      using assms True by (simp add: handleEvent_def item enqueue_open Let_def)
    moreover have "trace ((flushEvents e ?st3)\<lparr>lastFlush := now\<rparr>) =
        trace st @ (Enqueue (ClientEvent ev) # FlushEvents # f)"
      using f(1) t3 by simp
    moreover have "handedRows (Enqueue (ClientEvent ev) # FlushEvents # f) @
        eventBatch ((flushEvents e ?st3)\<lparr>lastFlush := now\<rparr>) =
        eventBatch st @ [\<lparr>pSessionId = sessionId e, pEvent = fst item\<rparr>]"
      using f(3) b3 by (simp add: flushEvents_batch item)
    ultimately show ?thesis using f(2) by (intro exI conjI) (assumption, assumption, simp, assumption)
  next
    case False
    have "handleEvent e st item = (None, ?st3)"
      using assms False by (simp add: handleEvent_def item enqueue_open Let_def)
    moreover have "handedRows [Enqueue (ClientEvent ev)] @ eventBatch ?st3 =
        eventBatch st @ [\<lparr>pSessionId = sessionId e, pEvent = fst item\<rparr>]"
      using b3 by (simp add: item)
    ultimately show ?thesis using t3 by (intro exI conjI) (assumption, assumption, simp, assumption)
  qed
qed

lemma eventLoop_open:
  assumes "cancelAfter e = None"
  shows "\<exists>st' x. eventLoop e st its = (None, st') \<and> trace st' = trace st @ x \<and>
           list_all plainAction x \<and>
           handedRows x @ eventBatch st' =
             eventBatch st @ map (\<lambda>item. \<lparr>pSessionId = sessionId e, pEvent = fst item\<rparr>) its"
proof (induction its arbitrary: st)
  case Nil
  show ?case by (intro exI [of _ st] exI [of _ "[]"]) simp
next
  case (Cons item its)
  from handleEvent_open [OF assms, of st item] obtain st1 x1 where
    h: "handleEvent e st item = (None, st1)" "trace st1 = trace st @ x1" "list_all plainAction x1"
       "handedRows x1 @ eventBatch st1 =
          eventBatch st @ [\<lparr>pSessionId = sessionId e, pEvent = fst item\<rparr>]" by blast
  from Cons.IH [of st1] obtain st2 x2 where
    l: "eventLoop e st1 its = (None, st2)" "trace st2 = trace st1 @ x2" "list_all plainAction x2"
       "handedRows x2 @ eventBatch st2 =
          eventBatch st1 @ map (\<lambda>item. \<lparr>pSessionId = sessionId e, pEvent = fst item\<rparr>) its"
    by blast
  have "eventLoop e st (item # its) = (None, st2)" using h(1) l(1) by simp
  moreover have "trace st2 = trace st @ (x1 @ x2)" using h(2) l(2) by simp
  moreover have "list_all plainAction (x1 @ x2)" using h(3) l(3) by simp
  moreover have "handedRows (x1 @ x2) @ eventBatch st2 =
      eventBatch st @ map (\<lambda>item. \<lparr>pSessionId = sessionId e, pEvent = fst item\<rparr>) (item # its)"
    using h(4) l(4) by (simp add: handedRows_append)
  ultimately show ?case by blast
qed


lemma finalize_trace:
  "trace (finalize e st) =
     trace st @
       [FinalizeCall,
        CommandUpdate (commandId e)
          \<lparr>sOutput =
             (if outputBuffer st \<noteq> [] then Some (outputBuffer st)
              else if encounteredError st \<and> errorBuffer st \<noteq> []
                then Some (trim (js ''Error: '' @ errorBuffer st))
              else None),
           sLatencyMs = finalizeTime e - startTime e,
           sTokensIn = tokensIn st, sTokensOut = tokensOut st\<rparr>
          (updateOk e)] @
       (if updateOk e then [] else [ConsoleError (js ''Failed to finalize command output'')])"
  by (simp add: finalize_def finalizeCommandRecord_def Let_def)

text \<open>The shape of every run whose consumer keeps reading.\<close>

lemma start_open:
  assumes "cancelAfter e = None"
  shows "\<exists>a f s u. fst (start e) = None \<and>
           trace (snd (start e)) =
             a @ FlushEvents # f @ FinalizeCall # CommandUpdate (commandId e) s (updateOk e) # u
               @ [Close] \<and>
           list_all plainAction a \<and> list_all plainAction f \<and> list_all plainAction u \<and>
           FlushEvents \<notin> set f \<and>
           handedRows (a @ FlushEvents # f) = consumedRows e \<and> handedRows u = []"
proof -
  let ?st0 = "initialPipeline e"
  have t0: "trace ?st0 = []" "eventBatch ?st0 = []" by (simp_all add: initialPipeline_def)
  have tail: "\<exists>a f s u.
           trace (finalize e (flushEvents e st)) @ w @ [Close] =
             a @ FlushEvents # f @ FinalizeCall # CommandUpdate (commandId e) s (updateOk e) # u
               @ [Close] \<and>
           list_all plainAction a \<and> list_all plainAction f \<and> list_all plainAction u \<and>
           FlushEvents \<notin> set f \<and>
           handedRows (a @ FlushEvents # f) = rows \<and> handedRows u = []"
    if "list_all plainAction (trace st)" "handedRows (trace st) @ eventBatch st = rows"
       "list_all plainAction w" "handedRows w = []"
    for st w rows
  proof -
    from flushEvents_trace [of e st] obtain f where
      f: "trace (flushEvents e st) = trace st @ FlushEvents # f" "list_all plainAction f"
         "handedRows f = eventBatch st" "FlushEvents \<notin> set f" by blast
    let ?u = "(if updateOk e then [] else [ConsoleError (js ''Failed to finalize command output'')]) @ w"
    have "list_all plainAction ?u" "handedRows ?u = []"
      using that(3,4) by simp_all
    moreover have "handedRows (trace st @ FlushEvents # f) = rows"
      using that(2) f(3) by (simp add: handedRows_append)
    moreover obtain s where "trace (finalize e (flushEvents e st)) @ w @ [Close] =
        trace st @ FlushEvents # f @ FinalizeCall # CommandUpdate (commandId e) s (updateOk e) # ?u
           @ [Close]"
      using f(1) by (simp add: finalize_trace)
    ultimately show ?thesis using that(1) f(2,4) by blast
  qed
  show ?thesis
  proof (cases "historyFails e")
    case (Some err)
    let ?st1 = "?st0\<lparr>encounteredError := True,
                   errorBuffer := appendErrorText (errorBuffer ?st0) (PayloadString (errorMessage err))\<rparr>"
    let ?st2 = "?st1\<lparr>trace := trace ?st1 @ [Enqueue (ClientError (errorMessage err))]\<rparr>"
    have run: "start e = (None, (finalize e (flushEvents e ?st2))\<lparr>trace :=
        trace (finalize e (flushEvents e ?st2)) @ [] @ [Close]\<rparr>)"
      using assms Some
      by (simp add: start_def tryBlock_def catchBlock_def Let_def enqueue_open closeController_open)
    from tail [of ?st2 "consumedRows e" "[]"] Some t0
    show ?thesis unfolding run by (simp add: consumedRows_def)
  next
    case None
    from eventLoop_open [OF assms, of ?st0 "items e"] obtain st1 x where
      l: "eventLoop e ?st0 (items e) = (None, st1)" "trace st1 = trace ?st0 @ x"
         "list_all plainAction x"
         "handedRows x @ eventBatch st1 =
            eventBatch ?st0 @ map (\<lambda>item. \<lparr>pSessionId = sessionId e, pEvent = fst item\<rparr>) (items e)"
      by blast
    have rows: "handedRows (trace st1) @ eventBatch st1 = consumedRows e"
      using l(2,4) t0 None by (simp add: consumedRows_def)
    have pl: "list_all plainAction (trace st1)" using l(2,3) t0 by simp
    show ?thesis
    proof (cases "ending e")
      case noerr: None
      have run: "start e = (None, (finalize e (flushEvents e st1))\<lparr>trace :=
          trace (finalize e (flushEvents e st1)) @ [Enqueue ClientDone] @ [Close]\<rparr>)"
        using assms None noerr l(1)
        by (simp add: start_def tryBlock_def Let_def enqueue_open closeController_open)
      from tail [of st1 "consumedRows e" "[Enqueue ClientDone]"] pl rows
      show ?thesis unfolding run by simp
    next
      case (Some err)
      let ?st2 = "st1\<lparr>encounteredError := True,
                   errorBuffer := appendErrorText (errorBuffer st1) (PayloadString (errorMessage err)),
                   trace := trace st1 @ [Enqueue (ClientError (errorMessage err))]\<rparr>"
      have run: "start e = (None, (finalize e (flushEvents e ?st2))\<lparr>trace :=
          trace (finalize e (flushEvents e ?st2)) @ [] @ [Close]\<rparr>)"
        using assms None Some l(1)
        by (simp add: start_def tryBlock_def catchBlock_def Let_def enqueue_open closeController_open)
      from tail [of ?st2 "consumedRows e" "[]"] pl rows
      show ?thesis unfolding run by (simp add: handedRows_append)
    qed
  qed
qed


lemma plain_actions:
  "list_all plainAction xs \<Longrightarrow>
   count_list xs FinalizeCall = 0 \<and> filter isCommandUpdate xs = [] \<and>
   Close \<notin> set xs \<and> FinalizeCall \<notin> set xs"
proof (induction xs)
  case Nil
  show ?case by simp
next
  case (Cons a xs)
  then show ?case by (cases a) simp_all
qed

lemmas pipeline_defs = start_def tryBlock_def catchBlock_def closeController_def
  controllerClosed_def enqueue_def flushEvents_def finalize_def finalizeCommandRecord_def
  handleEvent_def accumulate_def appendErrorText_def errorMessage_def initialPipeline_def
  trim_def isWhitespace_def js_def Let_def


lemma open_run_finalizes_once:
  assumes "cancelAfter e = None"
  shows "count_list (trace (snd (start e))) FinalizeCall = 1 \<and>
         length (filter isCommandUpdate (trace (snd (start e)))) = 1 \<and>
         (\<exists>a b. trace (snd (start e)) = a @ FinalizeCall # b @ [Close] \<and>
                Close \<notin> set a \<and> Close \<notin> set b) \<and>
         fst (start e) = None"
proof -
  from start_open [OF assms] obtain a f s u where
    r: "fst (start e) = None"
       "trace (snd (start e)) =
          a @ FlushEvents # f @ FinalizeCall # CommandUpdate (commandId e) s (updateOk e) # u
            @ [Close]"
       "list_all plainAction a" "list_all plainAction f" "list_all plainAction u"
    by blast
  note pa = plain_actions [OF r(3)] plain_actions [OF r(4)] plain_actions [OF r(5)]
  have c: "count_list (trace (snd (start e))) FinalizeCall = 1"
    unfolding r(2) using pa by simp
  have u: "length (filter isCommandUpdate (trace (snd (start e)))) = 1"
    unfolding r(2) using pa by simp
  have "trace (snd (start e)) =
      (a @ FlushEvents # f) @ FinalizeCall # (CommandUpdate (commandId e) s (updateOk e) # u) @ [Close]"
    unfolding r(2) by simp
  moreover have "Close \<notin> set (a @ FlushEvents # f)" using pa by simp
  moreover have "Close \<notin> set (CommandUpdate (commandId e) s (updateOk e) # u)" using pa by simp
  ultimately have "\<exists>a b. trace (snd (start e)) = a @ FinalizeCall # b @ [Close] \<and>
                Close \<notin> set a \<and> Close \<notin> set b" by blast
  with c u r(1) show ?thesis by blast
qed

text \<open>However the consumer behaves, \<open>finalize\<close> is never called twice.\<close>

lemma count_plain: "list_all plainAction xs \<Longrightarrow> count_list xs FinalizeCall = 0"
  using plain_actions by blast

lemma flushEvents_count:
  "count_list (trace (flushEvents e st)) FinalizeCall = count_list (trace st) FinalizeCall"
  by (simp add: flushEvents_def Let_def)

lemma flushEvents_enqueues:
  "filter isEnqueue (trace (flushEvents e st)) = filter isEnqueue (trace st)"
  by (simp add: flushEvents_def Let_def)

lemma finalize_count:
  "count_list (trace (finalize e st)) FinalizeCall = Suc (count_list (trace st) FinalizeCall)"
  by (simp add: finalize_trace)

lemma enqueue_count:
  "count_list (trace (snd (enqueue e st x))) FinalizeCall = count_list (trace st) FinalizeCall"
  by (simp add: enqueue_def)

lemma closeController_count:
  "count_list (trace (snd (closeController e st))) FinalizeCall =
     count_list (trace st) FinalizeCall"
  by (simp add: closeController_def)

lemma handleEvent_count:
  "count_list (trace (snd (handleEvent e st item))) FinalizeCall =
     count_list (trace st) FinalizeCall"
  by (cases item)
     (simp add: handleEvent_def enqueue_def Let_def flushEvents_count accumulate_trace)

lemma eventLoop_count:
  "count_list (trace (snd (eventLoop e st its))) FinalizeCall =
     count_list (trace st) FinalizeCall"
proof (induction its arbitrary: st)
  case Nil
  show ?case by simp
next
  case (Cons item its)
  obtain r st1 where h: "handleEvent e st item = (r, st1)" by (cases "handleEvent e st item")
  with handleEvent_count [of e st item]
  have c: "count_list (trace st1) FinalizeCall = count_list (trace st) FinalizeCall" by simp
  show ?case using h c Cons.IH [of st1] by (cases r) simp_all
qed

lemma catchBlock_count:
  "count_list (trace (snd (catchBlock e st err))) FinalizeCall =
     count_list (trace st) FinalizeCall + (if controllerClosed e st then 0 else 1)"
  by (simp add: catchBlock_def Let_def enqueue_def controllerClosed_def finalize_count
      flushEvents_count split: option.splits)

lemma enqueue_raises:
  "fst (enqueue e st x) \<noteq> None \<Longrightarrow> controllerClosed e (snd (enqueue e st x))"
  by (simp add: enqueue_def split: if_splits)

lemma tryBlock_count:
  "count_list (trace (snd (tryBlock e (initialPipeline e)))) FinalizeCall = 0 \<or>
   count_list (trace (snd (tryBlock e (initialPipeline e)))) FinalizeCall = 1 \<and>
     (fst (tryBlock e (initialPipeline e)) \<noteq> None \<longrightarrow>
        controllerClosed e (snd (tryBlock e (initialPipeline e))))"
proof -
  let ?st0 = "initialPipeline e"
  have z: "count_list (trace ?st0) FinalizeCall = 0" by (simp add: initialPipeline_def)
  obtain r st1 where l: "eventLoop e ?st0 (items e) = (r, st1)"
    by (cases "eventLoop e ?st0 (items e)")
  with eventLoop_count [of e ?st0 "items e"] z
  have c1: "count_list (trace st1) FinalizeCall = 0" by simp
  let ?f = "finalize e (flushEvents e st1)"
  have cf: "count_list (trace ?f) FinalizeCall = 1"
    using c1 by (simp add: finalize_count flushEvents_count)
  have ce: "count_list (trace (snd (enqueue e ?f ClientDone))) FinalizeCall = 1"
    using cf by (simp add: enqueue_count)
  show ?thesis
    using z l c1 ce enqueue_raises [of e ?f ClientDone]
    by (auto simp: tryBlock_def split: option.splits)
qed

lemma finalize_at_most_once:
  "count_list (trace (snd (start e))) FinalizeCall \<le> 1"
proof -
  obtain r1 st1 where t: "tryBlock e (initialPipeline e) = (r1, st1)"
    by (cases "tryBlock e (initialPipeline e)")
  from tryBlock_count [of e] t
  have c: "count_list (trace st1) FinalizeCall = 0 \<or>
           count_list (trace st1) FinalizeCall = 1 \<and> (r1 \<noteq> None \<longrightarrow> controllerClosed e st1)"
    by simp
  show ?thesis
  proof (cases r1)
    case None
    with t c show ?thesis
      by (auto simp: start_def closeController_def split: prod.splits)
  next
    case (Some err)
    obtain r2 st2 where cb: "catchBlock e st1 err = (r2, st2)" by (cases "catchBlock e st1 err")
    from catchBlock_count [of e st1 err] cb c Some
    have "count_list (trace st2) FinalizeCall \<le> 1" by auto
    with t Some cb show ?thesis
      by (auto simp: start_def closeController_def split: prod.splits)
  qed
qed

text \<open>When the consumer has cancelled, \<open>enqueue\<close> raises in the loop and again in the
  \<open>catch\<close> block, before \<open>flushEvents\<close> and \<open>finalize\<close>: neither runs.\<close>

text \<open>On a run whose consumer keeps reading, \<open>flushEvents\<close> is called before
  \<open>finalize\<close> with nothing between them but its own bulk write, and by then
  every event consumed has been handed to the bulk write.\<close>

lemma open_run_flushes_before_finalizer:
  assumes "cancelAfter e = None"
  shows "\<exists>a f b. trace (snd (start e)) = a @ FlushEvents # f @ FinalizeCall # b @ [Close] \<and>
           FinalizeCall \<notin> set a \<and> FinalizeCall \<notin> set f \<and> FlushEvents \<notin> set f \<and>
           Close \<notin> set a \<and> Close \<notin> set f \<and> Close \<notin> set b \<and>
           handedRows (a @ FlushEvents # f) = consumedRows e"
proof -
  from start_open [OF assms] obtain a f s u where
    r: "trace (snd (start e)) =
          a @ FlushEvents # f @ FinalizeCall # CommandUpdate (commandId e) s (updateOk e) # u
            @ [Close]"
       "list_all plainAction a" "list_all plainAction f" "list_all plainAction u"
       "FlushEvents \<notin> set f" "handedRows (a @ FlushEvents # f) = consumedRows e"
    by blast
  note pa = plain_actions [OF r(2)] plain_actions [OF r(3)] plain_actions [OF r(4)]
  have "trace (snd (start e)) =
      a @ FlushEvents # f @ FinalizeCall # (CommandUpdate (commandId e) s (updateOk e) # u) @ [Close]"
    unfolding r(1) by simp
  moreover have "Close \<notin> set (CommandUpdate (commandId e) s (updateOk e) # u)" using pa by simp
  ultimately show ?thesis using pa r(5,6) by blast
qed

section \<open>Evaluating the decoder on concrete inputs\<close>

lemmas char_defs = js_def dq_def bs_def colon_def lower_u_def
lemmas parse_defs = JSON_parse_quoted_def simpleEscape_def hex4_def hexValue_def jsonWhitespace_def
lemmas decoder_defs = newDecoder_def processChunk_def processChar_def processKeyChar_def charAt_def
  processPostKeyChar_def processStringStartChar_def processValueChar_def emitDelta_def
  finalizeValue_def resetSearchAndReprocess_def isWhitespace_def


text \<open>A \<open>\u\<close> escape split between two chunks: the chunks \<open>{"x":"\u00\<close> and
  \<open>41"}\<close> give the value \<open>A\<close> for the field \<open>x\<close>.\<close>

lemma unicode_escape_across_chunks:
  "processChunks (newDecoder (js ''x'')) [js ''{\"x\":\"'' @ [bs] @ js ''u00'', js ''41\"}''] =
     ((newDecoder (js ''x''))\<lparr>stage := Complete, lastEmittedLength := 1, currentValue := js ''A''\<rparr>,
      [OnDelta (js ''x'') (js ''A'') (js ''A''), OnComplete (js ''x'') (js ''A'')])"
  by (simp add: char_defs parse_defs decoder_defs)

section \<open>The claims about the field decoder\<close>

text \<open>
  C1, as stated, fails: for the field name \<open>,\<close> and the JSON text
  \<open>{"a":"b",",":"v"}\<close>, which holds the well-formed pair \<open>",":"v"\<close>, the key
  token \<open>","\<close> first occurs across the end of the value \<open>"b"\<close>, the comma
  and the opening quote of the key. The decoder takes that occurrence, drops
  it at the next character and never finds the pair: no delta and no
  completion are delivered.
\<close>

theorem first_pair_counterexample:
  "js ''{\"a\":\"b\",\",\":\"v\"}'' =
     js ''{\"a\":\"b\",'' @ (dq # js '','' @ [dq]) @ [colon] @ [dq] @ js ''v'' @ [dq] @ js ''}'' \<and>
   JSON_parse_quoted (js ''v'') = Some (js ''v'') \<and>
   deltasOf (snd (processChunks (newDecoder (js '','')) [js ''{\"a\":\"b\",\",\":\"v\"}''])) = [] \<and>
   deltasOf (snd (processChunks (newDecoder (js '','')) [js ''{\"a\":\"b\",\",\":\"v\"}'']))
     \<noteq> js ''v'' \<and>
   completionsOf (snd (processChunks (newDecoder (js '','')) [js ''{\"a\":\"b\",\",\":\"v\"}''])) = [] \<and>
   stage (fst (processChunks (newDecoder (js '','')) [js ''{\"a\":\"b\",\",\":\"v\"}'']))
     = SearchingKey"
  by (simp add: char_defs parse_defs decoder_defs)

text \<open>
  C1, amended. Let \<open>F\<close> be a field name without a double quote, and let the
  text hold a pair \<open>"F"\<close>, whitespace, \<open>:\<close>, whitespace, \<open>"enc"\<close> whose string
  literal decodes to \<open>v\<close>. Suppose every occurrence of the key token \<open>"F"\<close>
  that starts before this pair ends before the pair starts (it does not share
  its closing quote with the opening quote of the key) and is not followed by
  optional whitespace, a colon, optional whitespace and a double quote (so
  that this pair is the first one with a string value). Then, for every way
  of splitting the text into chunks fed in order to a fresh decoder for \<open>F\<close>,
  the deltas delivered join to \<open>v\<close> exactly, and exactly one completion is
  delivered, carrying \<open>v\<close>. Earlier occurrences of the token as a value or
  inside another string, as in \<open>{"kind":"command","command":"ls"}\<close> for the
  field \<open>command\<close>, are passed over.
\<close>

theorem decoder_extracts_first_pair:
  assumes "dq \<notin> set F"
    and "list_all isWhitespace ws1" "list_all isWhitespace ws2"
    and "JSON_parse_quoted enc = Some v"
    and "concat chunks =
           pre @ (dq # F @ [dq]) @ ws1 @ [colon] @ ws2 @ [dq] @ enc @ [dq] @ post"
    and "\<forall>i<length pre. prefix (dq # F @ [dq]) (drop i (concat chunks)) \<longrightarrow>
           i + length (dq # F @ [dq]) \<le> length pre \<and>
           \<not> valueFollows (drop (i + length (dq # F @ [dq])) (concat chunks))"
  shows "deltasOf (snd (processChunks (newDecoder F) chunks)) = v \<and>
         completionsOf (snd (processChunks (newDecoder F) chunks)) = [v] \<and>
         stage (fst (processChunks (newDecoder F) chunks)) = Complete \<and>
         currentValue (fst (processChunks (newDecoder F) chunks)) = v"
proof -
  let ?d = "newDecoder F"
  let ?P = "dq # F @ [dq]"
  let ?tail = "ws1 @ [colon] @ ws2 @ [dq] @ enc @ [dq] @ post"
  have P: "keyPattern ?d = ?P" by (simp add: newDecoder_def)
  have st: "stage ?d = SearchingKey" "keyIndex ?d = 0" by (simp_all add: newDecoder_def)
  have whole: "pre @ ?P @ ?tail = concat chunks" using assms(5) by simp
  have earlier: "\<forall>i<length pre. prefix (keyPattern ?d) (drop i (pre @ keyPattern ?d @ ?tail)) \<longrightarrow>
             i + length (keyPattern ?d) \<le> length pre \<and>
             \<not> valueFollows (drop (i + length (keyPattern ?d)) (pre @ keyPattern ?d @ ?tail))"
    unfolding P whole by (rule assms(6))
  have "processChunkLoop ?d (pre @ keyPattern ?d) = (?d\<lparr>stage := AfterKey\<rparr>, [])"
    by (rule reach_key [OF assms(1) st P earlier])
  then have s1: "processChunkLoop ?d (pre @ ?P) = (?d\<lparr>stage := AfterKey\<rparr>, [])"
    unfolding P .
  let ?d1 = "?d\<lparr>stage := AfterKey\<rparr>"
  let ?d2 = "?d1\<lparr>stage := Collecting, collectingBuffer := [], escapeActive := False,
         unicodeDigitsRemaining := 0, lastEmittedLength := 0\<rparr>"
  have s2: "processChunkLoop ?d1 (ws1 @ [colon] @ ws2 @ [dq]) = (?d2, [])"
    by (rule after_key_to_collecting) (use assms in simp_all)
  have bv: "body enc v"
    using assms(4) by (simp add: JSON_parse_quoted_decodeBody decodeBody_body)
  have c: "collected ?d2 enc [] v (processChunkLoop ?d2 enc)"
    by (rule collect_body [OF bv]) (simp_all add: body_Nil)
  obtain d3 e3 where r3: "processChunkLoop ?d2 enc = (d3, e3)"
    by (cases "processChunkLoop ?d2 enc")
  with c have d3: "stage d3 = Collecting" "\<not> escapeActive d3" "unicodeDigitsRemaining d3 = 0"
    "collectingBuffer d3 = enc" "lastEmittedLength d3 = length v" "deltasOf e3 = v"
    "completionsOf e3 = []" "currentValue d3 = (if v = [] then currentValue ?d2 else v)"
    by (simp_all add: collected_def)
  have s4: "processChunkLoop d3 (dq # post) =
     (d3\<lparr>stage := Complete, collectingBuffer := [], escapeActive := False,
         unicodeDigitsRemaining := 0\<rparr>, [OnComplete (field d3) v])"
    by (rule finish_value) (use d3 bv in simp_all)
  have split_text: "concat chunks = (pre @ ?P) @ (ws1 @ [colon] @ ws2 @ [dq]) @ enc @ (dq # post)"
    using assms(5) by simp
  have "processChunks ?d chunks =
     (d3\<lparr>stage := Complete, collectingBuffer := [], escapeActive := False,
         unicodeDigitsRemaining := 0\<rparr>, e3 @ [OnComplete (field d3) v])"
    unfolding chunks_concat split_text
    using loop_seq [OF s1 loop_seq [OF s2 loop_seq [OF r3 s4]]] by simp
  then show ?thesis
    using d3 by (simp add: deltasOf_append completionsOf_append newDecoder_def)
qed

theorem decoder_extracts_first_pair_witness:
  "dq \<notin> set (js ''command'') \<and>
   JSON_parse_quoted (js ''ls'') = Some (js ''ls'') \<and>
   concat [js ''{\"kind\":\"comm'', js ''and\",\"command\" : \"ls\"}''] =
     js ''{\"kind\":\"command\",'' @ (dq # js ''command'' @ [dq]) @ js '' '' @ [colon] @
       js '' '' @ [dq] @ js ''ls'' @ [dq] @ js ''}'' \<and>
   prefix (dq # js ''command'' @ [dq])
     (drop 8 (concat [js ''{\"kind\":\"comm'', js ''and\",\"command\" : \"ls\"}''])) \<and>
   deltasOf (snd (processChunks (newDecoder (js ''command''))
     [js ''{\"kind\":\"comm'', js ''and\",\"command\" : \"ls\"}''])) = js ''ls'' \<and>
   completionsOf (snd (processChunks (newDecoder (js ''command''))
     [js ''{\"kind\":\"comm'', js ''and\",\"command\" : \"ls\"}''])) = [js ''ls'']"
proof -
  have h1: "dq \<notin> set (js ''command'')" by (simp add: char_defs)
  have w: "list_all isWhitespace (js '' '')" by (simp add: char_defs isWhitespace_def)
  have h2: "JSON_parse_quoted (js ''ls'') = Some (js ''ls'')"
    by (simp add: char_defs parse_defs)
  have h3: "concat [js ''{\"kind\":\"comm'', js ''and\",\"command\" : \"ls\"}''] =
     js ''{\"kind\":\"command\",'' @ (dq # js ''command'' @ [dq]) @ js '' '' @ [colon] @
       js '' '' @ [dq] @ js ''ls'' @ [dq] @ js ''}''"
    by (simp add: char_defs)
  have h4: "\<forall>i<length (js ''{\"kind\":\"command\",'').
      prefix (dq # js ''command'' @ [dq])
        (drop i (concat [js ''{\"kind\":\"comm'', js ''and\",\"command\" : \"ls\"}''])) \<longrightarrow>
      i + length (dq # js ''command'' @ [dq]) \<le> length (js ''{\"kind\":\"command\",'') \<and>
      \<not> valueFollows (drop (i + length (dq # js ''command'' @ [dq]))
           (concat [js ''{\"kind\":\"comm'', js ''and\",\"command\" : \"ls\"}'']))"
    by (simp add: char_defs valueFollows_def isWhitespace_def All_less_Suc)
  have h5: "prefix (dq # js ''command'' @ [dq])
      (drop 8 (concat [js ''{\"kind\":\"comm'', js ''and\",\"command\" : \"ls\"}'']))"
    by (simp add: char_defs)
  from decoder_extracts_first_pair [OF h1 w w h2 h3 h4] h1 h2 h3 h5
  show ?thesis by simp
qed

text \<open>
  C4. In the \<open>SearchingKey\<close> stage, a character that differs from the next
  expected character of the key pattern resets the match index, and is itself
  taken as the first character of a new match when it equals the first
  character of the pattern: the index becomes 1, and the rest of the pattern
  then completes the key.
\<close>

theorem mismatch_restarts_key_match:
  assumes "stage d = SearchingKey" "keyIndex d < length (keyPattern d)"
    and "c \<noteq> keyPattern d ! keyIndex d"
  shows "processChar d c =
           (d\<lparr>keyIndex := (if c = keyPattern d ! 0 then 1 else 0)\<rparr>, []) \<and>
         (c = keyPattern d ! 0 \<longrightarrow>
            processChunk (fst (processChar d c)) (drop 1 (keyPattern d)) =
              (d\<lparr>stage := AfterKey, keyIndex := 0\<rparr>, []))"
proof -
  have ne: "keyPattern d \<noteq> []" using assms(2) by auto
  have st: "processChar d c = (d\<lparr>keyIndex := (if c = keyPattern d ! 0 then 1 else 0)\<rparr>, [])"
    using assms ne by (simp add: processChar_def processKeyChar_def charAt_def)
  have "processChunk (fst (processChar d c)) (drop 1 (keyPattern d)) =
              (d\<lparr>stage := AfterKey, keyIndex := 0\<rparr>, [])" if c0: "c = keyPattern d ! 0"
  proof -
    from c0 assms(3) have "keyIndex d \<noteq> 0" by (cases "keyIndex d = 0") auto
    with assms(2) have l1: "1 < length (keyPattern d)" by simp
    let ?d1 = "d\<lparr>keyIndex := 1\<rparr>"
    have "processChunkLoop ?d1 (drop 1 (keyPattern ?d1)) =
            (?d1\<lparr>stage := AfterKey, keyIndex := 0\<rparr>, [])"
      by (rule match_rest) (use assms(1) l1 in simp_all)
    then show ?thesis using st c0 by (simp add: processChunk_loop)
  qed
  with st show ?thesis by blast
qed

theorem mismatch_restarts_key_match_witness:
  "stage ((newDecoder (js ''foo''))\<lparr>keyIndex := 1\<rparr>) = SearchingKey \<and>
   dq \<noteq> keyPattern ((newDecoder (js ''foo''))\<lparr>keyIndex := 1\<rparr>) ! 1 \<and>
   dq = keyPattern ((newDecoder (js ''foo''))\<lparr>keyIndex := 1\<rparr>) ! 0 \<and>
   processChunk (newDecoder (js ''foo'')) [dq] = ((newDecoder (js ''foo''))\<lparr>keyIndex := 1\<rparr>, []) \<and>
   processChunk ((newDecoder (js ''foo''))\<lparr>keyIndex := 1\<rparr>) (dq # js ''foo\"'') =
     ((newDecoder (js ''foo''))\<lparr>stage := AfterKey, keyIndex := 0\<rparr>, [])"
proof -
  let ?d = "(newDecoder (js ''foo''))\<lparr>keyIndex := 1\<rparr>"
  have h1: "stage ?d = SearchingKey" by (simp add: newDecoder_def)
  have h2: "keyIndex ?d < length (keyPattern ?d)" by (simp add: newDecoder_def)
  have h3: "dq \<noteq> keyPattern ?d ! keyIndex ?d" by (simp add: newDecoder_def char_defs)
  have h4: "dq = keyPattern ?d ! 0" by (simp add: newDecoder_def)
  note th = mismatch_restarts_key_match [OF h1 h2 h3]
  from th h4 have a: "processChar ?d dq = (?d, [])" by simp
  from th h4 have "processChunk (fst (processChar ?d dq)) (drop 1 (keyPattern ?d)) =
              (?d\<lparr>stage := AfterKey, keyIndex := 0\<rparr>, [])" by blast
  then have b: "processChunk ?d (drop 1 (keyPattern ?d)) =
              (?d\<lparr>stage := AfterKey, keyIndex := 0\<rparr>, [])" unfolding a by simp
  have e: "js ''foo\"'' = drop 1 (keyPattern ?d)"
    by (simp add: newDecoder_def js_def dq_def)
  have "processChunk ?d (dq # xs) = processChunk ?d xs" for xs
    using a h1 by (simp add: processChunk_def)
  then have c: "processChunk ?d (dq # js ''foo\"'') = processChunk ?d (drop 1 (keyPattern ?d))"
    unfolding e by simp
  have d: "processChunk (newDecoder (js ''foo'')) [dq] = (?d, [])"
    by (simp add: char_defs decoder_defs)
  show ?thesis using h1 h3 h4 b c d by simp
qed

text \<open>
  C7. Once the stage is \<open>Complete\<close>, \<open>processChunk\<close> returns the decoder as it
  is and delivers no notification, whatever the chunk.
\<close>

theorem complete_absorbs_input:
  "stage d = Complete \<Longrightarrow> processChunk d chunk = (d, [])"
  by (simp add: processChunk_def)

theorem complete_absorbs_input_witness:
  "stage (fst (processChunk (newDecoder (js ''x'')) (js ''{\"x\":\"a\"}''))) = Complete \<and>
   processChunk (fst (processChunk (newDecoder (js ''x'')) (js ''{\"x\":\"a\"}'')))
       (js '',\"x\":\"b\"}'') =
     (fst (processChunk (newDecoder (js ''x'')) (js ''{\"x\":\"a\"}'')), [])"
proof -
  have c: "stage (fst (processChunk (newDecoder (js ''x'')) (js ''{\"x\":\"a\"}''))) = Complete"
    by (simp add: char_defs parse_defs decoder_defs)
  from complete_absorbs_input [OF c] c show ?thesis by simp
qed

text \<open>
  C9. When the closing quote arrives in the \<open>Collecting\<close> stage and the
  collected buffer is not a JSON string literal, the decoder still moves to
  \<open>Complete\<close> and clears its scratch state, and delivers neither a delta nor a
  completion.
\<close>

theorem unparsable_value_completes_silently:
  assumes "stage d = Collecting" "\<not> escapeActive d" "unicodeDigitsRemaining d = 0"
    and "JSON_parse_quoted (collectingBuffer d) = None"
  shows "finalizeValue d =
           (d\<lparr>stage := Complete, collectingBuffer := [], escapeActive := False,
               unicodeDigitsRemaining := 0\<rparr>, []) \<and>
         processChunk d (dq # rest) = finalizeValue d"
  using assms
  by (simp add: processChunk_def processChar_def processValueChar_def finalizeValue_def
      bs_neq_dq [symmetric] loop_Complete)

theorem unparsable_value_completes_silently_witness:
  "stage (fst (processChunk (newDecoder (js ''x'')) (js ''{\"x\":\"a'' @ [bs] @ js ''qb''))) = Collecting \<and>
   JSON_parse_quoted (collectingBuffer
     (fst (processChunk (newDecoder (js ''x'')) (js ''{\"x\":\"a'' @ [bs] @ js ''qb'')))) = None \<and>
   stage (fst (processChunk
     (fst (processChunk (newDecoder (js ''x'')) (js ''{\"x\":\"a'' @ [bs] @ js ''qb'')))
     (dq # js ''}''))) = Complete \<and>
   snd (processChunk
     (fst (processChunk (newDecoder (js ''x'')) (js ''{\"x\":\"a'' @ [bs] @ js ''qb'')))
     (dq # js ''}'')) = [] \<and>
   completionsOf (snd (processChunk (newDecoder (js ''x''))
     (js ''{\"x\":\"a'' @ [bs] @ js ''qb''))) = []"
proof -
  let ?d = "fst (processChunk (newDecoder (js ''x'')) (js ''{\"x\":\"a'' @ [bs] @ js ''qb''))"
  have h1: "stage ?d = Collecting" by (simp add: char_defs parse_defs decoder_defs)
  have h2: "\<not> escapeActive ?d" by (simp add: char_defs parse_defs decoder_defs)
  have h3: "unicodeDigitsRemaining ?d = 0" by (simp add: char_defs parse_defs decoder_defs)
  have h4: "JSON_parse_quoted (collectingBuffer ?d) = None"
    by (simp add: char_defs parse_defs decoder_defs)
  have h5: "completionsOf (snd (processChunk (newDecoder (js ''x''))
     (js ''{\"x\":\"a'' @ [bs] @ js ''qb''))) = []"
    by (simp add: char_defs parse_defs decoder_defs)
  from unparsable_value_completes_silently [OF h1 h2 h3 h4, of "js ''}''"] h1 h4 h5
  show ?thesis by simp
qed

text \<open>
  C10. While the countdown of a \<open>\u\<close> escape is running, every character is
  buffered as one of its four digits, whatever it is: a double quote does not
  finalize the value and a backslash does not start an escape. When the
  character is not a hex digit, the buffer of a decoder that got there from its
  initial state never decodes again: neither this character nor anything after
  it delivers a notification.
\<close>

theorem unicode_countdown_takes_any_character:
  assumes "stage d = Collecting" "unicodeDigitsRemaining d > 0"
  shows "stage (fst (processChar d c)) = Collecting \<and>
         collectingBuffer (fst (processChar d c)) = collectingBuffer d @ [c] \<and>
         unicodeDigitsRemaining (fst (processChar d c)) = unicodeDigitsRemaining d - 1 \<and>
         escapeActive (fst (processChar d c)) =
           (escapeActive d \<and> unicodeDigitsRemaining d > 1) \<and>
         completionsOf (snd (processChar d c)) = [] \<and>
         (\<forall>F chunks rest.
            d = fst (processChunks (newDecoder F) chunks) \<and> hexValue c = None
            \<longrightarrow> snd (processChunk d (c # rest)) = [])"
proof -
  have pc: "processChar d c = processValueChar d c"
    using assms(1) by (simp add: processChar_def)
  have a: "stage (fst (processChar d c)) = Collecting \<and>
         collectingBuffer (fst (processChar d c)) = collectingBuffer d @ [c] \<and>
         unicodeDigitsRemaining (fst (processChar d c)) = unicodeDigitsRemaining d - 1 \<and>
         escapeActive (fst (processChar d c)) =
           (escapeActive d \<and> unicodeDigitsRemaining d > 1) \<and>
         completionsOf (snd (processChar d c)) = []"
    using assms unfolding pc
    by (auto simp: processValueChar_def emitDelta_def Let_def split: option.splits)
  have b: "snd (processChunk d (c # rest)) = []"
    if h: "d = fst (processChunks (newDecoder F) chunks)" "hexValue c = None"
    for F chunks rest
  proof -
    have inv: "pendingEscape d" unfolding h(1) by (rule pendingEscape_reachable)
    note dead = countdown_dead [OF inv assms h(2)]
    from dead [of "[]"] have nodelta: "snd (processChar d c) = []"
      using assms unfolding pc
      by (auto simp: processValueChar_def emitDelta_def Let_def split: option.splits)
    have "snd (processChunkLoop (fst (processChar d c)) rest) = []"
      by (rule dead_run) (use a dead in simp)
    with nodelta assms(1) show ?thesis
      by (simp add: processChunk_def loop_Cons_snd del: processChunkLoop.simps)
  qed
  from a b show ?thesis by blast
qed

theorem unicode_countdown_takes_any_character_witness:
  "stage (fst (processChunks (newDecoder (js ''x'')) [js ''{\"x\":\"'' @ [bs] @ js ''u0''])) = Collecting \<and>
   unicodeDigitsRemaining
     (fst (processChunks (newDecoder (js ''x'')) [js ''{\"x\":\"'' @ [bs] @ js ''u0''])) = 3 \<and>
   hexValue dq = None \<and>
   stage (fst (processChar
     (fst (processChunks (newDecoder (js ''x'')) [js ''{\"x\":\"'' @ [bs] @ js ''u0''])) dq))
     = Collecting \<and>
   collectingBuffer (fst (processChar
     (fst (processChunks (newDecoder (js ''x'')) [js ''{\"x\":\"'' @ [bs] @ js ''u0''])) dq))
     = [bs, lower_u] @ js ''0'' @ [dq] \<and>
   snd (processChunk
     (fst (processChunks (newDecoder (js ''x'')) [js ''{\"x\":\"'' @ [bs] @ js ''u0'']))
     (dq # js ''41\"}'')) = []"
proof -
  let ?d = "fst (processChunks (newDecoder (js ''x'')) [js ''{\"x\":\"'' @ [bs] @ js ''u0''])"
  have h1: "stage ?d = Collecting" by (simp add: char_defs parse_defs decoder_defs)
  have h2: "unicodeDigitsRemaining ?d = 3" by (simp add: char_defs parse_defs decoder_defs)
  then have h2': "unicodeDigitsRemaining ?d > 0" by simp
  have h3: "collectingBuffer ?d = [bs, lower_u] @ js ''0''"
    by (simp add: char_defs parse_defs decoder_defs)
  have h5: "hexValue dq = None" by (rule hexValue_dq)
  note th = unicode_countdown_takes_any_character [OF h1 h2', of dq]
  from th have a: "stage (fst (processChar ?d dq)) = Collecting"
    and b: "collectingBuffer (fst (processChar ?d dq)) = collectingBuffer ?d @ [dq]"
    by blast+
  from th h5 have c: "snd (processChunk ?d (dq # js ''41\"}'')) = []"
    by blast
  from a b c h1 h2 h3 h5 show ?thesis by simp
qed

section \<open>The claims about the terminal execute stream\<close>

text \<open>
  C3 does not hold of the code. When the consumer cancels the stream (the
  client disconnects), \<open>controller.enqueue\<close> raises in the \<open>try\<close> block; the
  \<open>catch\<close> block calls \<open>controller.enqueue\<close> before \<open>flushEvents\<close> and
  \<open>finalize\<close>, that call raises again, and \<open>finalize\<close> is never reached. In the
  run whose producer yields two events and returns and whose consumer cancels
  after the first, and in the run whose producer raises before yielding and
  whose consumer has cancelled by then, \<open>finalize\<close> is called zero times and
  no summary update is issued; \<open>start\<close> ends with the exception of the closed
  controller.
\<close>

theorem finalizer_skipped_on_cancelled_stream:
  "count_list (trace (snd (start abandonedRun))) FinalizeCall = 0 \<and>
   filter isCommandUpdate (trace (snd (start abandonedRun))) = [] \<and>
   trace (snd (start abandonedRun)) = [Enqueue (ClientEvent (TokenEvent (js ''hi'')))] \<and>
   fst (start abandonedRun) = Some (ErrorObject (js ''closed'')) \<and>
   count_list (trace (snd (start abandonedFailedRun))) FinalizeCall = 0 \<and>
   filter isCommandUpdate (trace (snd (start abandonedFailedRun))) = [] \<and>
   trace (snd (start abandonedFailedRun)) = [] \<and>
   fst (start abandonedFailedRun) = Some (ErrorObject (js ''closed''))"
  by (simp add: abandonedRun_def abandonedFailedRun_def completedRun_def failedRun_def
      pipeline_defs)

text \<open>
  C5. \<open>finalize\<close> hands to the summary update: the output buffer when it is
  not empty; otherwise, when an error was encountered and the error buffer is
  not empty, the trimmed text \<open>Error: \<close> followed by the error buffer;
  otherwise null; together with the time elapsed since the start and the token
  counters. When the update succeeds, that summary is what is stored.
\<close>

theorem finalize_summary_precedence:
  "trace (finalize e st) =
     trace st @
       [FinalizeCall,
        CommandUpdate (commandId e)
          \<lparr>sOutput =
             (if outputBuffer st \<noteq> [] then Some (outputBuffer st)
              else if encounteredError st \<and> errorBuffer st \<noteq> []
                then Some (trim (js ''Error: '' @ errorBuffer st))
              else None),
           sLatencyMs = finalizeTime e - startTime e,
           sTokensIn = tokensIn st, sTokensOut = tokensOut st\<rparr>
          (updateOk e)] @
       (if updateOk e then [] else [ConsoleError (js ''Failed to finalize command output'')]) \<and>
   (updateOk e \<longrightarrow>
      storedSummary (trace (finalize e st)) =
        Some \<lparr>sOutput =
             (if outputBuffer st \<noteq> [] then Some (outputBuffer st)
              else if encounteredError st \<and> errorBuffer st \<noteq> []
                then Some (trim (js ''Error: '' @ errorBuffer st))
              else None),
           sLatencyMs = finalizeTime e - startTime e,
           sTokensIn = tokensIn st, sTokensOut = tokensOut st\<rparr>)"
  by (simp add: finalize_trace storedSummary_append)

theorem finalize_summary_precedence_witness:
  "updateOk completedRun \<and>
   storedSummary (trace (finalize completedRun
     ((initialPipeline completedRun)\<lparr>encounteredError := True,
        errorBuffer := js ''boom '', tokensIn := 3\<rparr>))) =
     Some \<lparr>sOutput = Some (js ''Error: boom''), sLatencyMs = 350, sTokensIn = 3, sTokensOut = 0\<rparr> \<and>
   storedSummary (trace (finalize completedRun
     ((initialPipeline completedRun)\<lparr>outputBuffer := js ''ok'', encounteredError := True,
        errorBuffer := js ''boom''\<rparr>))) =
     Some \<lparr>sOutput = Some (js ''ok''), sLatencyMs = 350, sTokensIn = 0, sTokensOut = 0\<rparr> \<and>
   storedSummary (trace (finalize completedRun
     ((initialPipeline completedRun)\<lparr>errorBuffer := js ''boom''\<rparr>))) =
     Some \<lparr>sOutput = None, sLatencyMs = 350, sTokensIn = 0, sTokensOut = 0\<rparr>"
proof -
  have h: "updateOk completedRun" by (simp add: completedRun_def)
  note th = finalize_summary_precedence [of completedRun, THEN conjunct2, rule_format, OF h]
  show ?thesis
    using h by (simp add: th) (simp add: completedRun_def initialPipeline_def trim_def
      isWhitespace_def js_def)
qed

text \<open>
  C6 does not hold of the code, by the same defect as C3: on a cancelled
  stream the \<open>catch\<close> block raises at its \<open>controller.enqueue\<close>, before its
  \<open>flushEvents\<close>. In the run whose consumer cancels after the first event,
  \<open>flushEvents\<close> is never called: the row of the first event is still in
  the batch at the end and nothing was handed to the bulk write. In the run
  whose producer raises before yielding and whose consumer has cancelled by
  then, \<open>flushEvents\<close> is never called either.
\<close>

theorem flush_skipped_on_cancelled_stream:
  "count_list (trace (snd (start abandonedRun))) FlushEvents = 0 \<and>
   eventBatch (snd (start abandonedRun)) =
     [\<lparr>pSessionId = js ''s1'', pEvent = TokenEvent (js ''hi'')\<rparr>] \<and>
   handedRows (trace (snd (start abandonedRun))) = [] \<and>
   count_list (trace (snd (start abandonedFailedRun))) FlushEvents = 0 \<and>
   count_list (trace (snd (start abandonedFailedRun))) Close = 0"
  by (simp add: abandonedRun_def abandonedFailedRun_def completedRun_def failedRun_def
      pipeline_defs)

text \<open>
  C8. \<open>flushEvents\<close> always leaves the batch empty and returns normally. When
  the bulk write is rejected, the error is logged, nothing else changes, the
  rows are not stored and not put back: a later flush hands over only the rows
  queued since.
\<close>

theorem flushEvents_drops_rejected_rows:
  "eventBatch (flushEvents e st) = [] \<and>
   (eventBatch st \<noteq> [] \<and> \<not> createManyOk e (length (filter isCreateMany (trace st))) \<longrightarrow>
      trace (flushEvents e st) =
        trace st @ [FlushEvents, CreateMany (eventBatch st) False,
                    ConsoleError (js ''Failed to persist terminal events'')] \<and>
      persistedRows (trace (flushEvents e st)) = persistedRows (trace st) \<and>
      flushEvents e st = st\<lparr>eventBatch := [], trace := trace (flushEvents e st)\<rparr> \<and>
      (\<forall>later. later \<noteq> [] \<longrightarrow>
         handedRows (trace (flushEvents e ((flushEvents e st)\<lparr>eventBatch := later\<rparr>))) =
           handedRows (trace st) @ eventBatch st @ later \<and>
         persistedRows (trace (flushEvents e ((flushEvents e st)\<lparr>eventBatch := later\<rparr>))) =
           persistedRows (trace st) @
             (if createManyOk e (Suc (length (filter isCreateMany (trace st)))) then later else [])))"
  by (simp add: flushEvents_def Let_def persistedRows_append handedRows_append)

theorem flushEvents_drops_rejected_rows_witness:
  "eventBatch ((initialPipeline failedRun)
      \<lparr>eventBatch := [\<lparr>pSessionId = js ''s1'', pEvent = TokenEvent (js ''hi'')\<rparr>]\<rparr>) \<noteq> [] \<and>
   \<not> createManyOk failedRun 0 \<and>
   flushEvents failedRun ((initialPipeline failedRun)
      \<lparr>eventBatch := [\<lparr>pSessionId = js ''s1'', pEvent = TokenEvent (js ''hi'')\<rparr>]\<rparr>) =
     (initialPipeline failedRun)
      \<lparr>trace := [FlushEvents,
                  CreateMany [\<lparr>pSessionId = js ''s1'', pEvent = TokenEvent (js ''hi'')\<rparr>] False,
                  ConsoleError (js ''Failed to persist terminal events'')]\<rparr> \<and>
   persistedRows (trace (flushEvents failedRun ((initialPipeline failedRun)
      \<lparr>eventBatch := [\<lparr>pSessionId = js ''s1'', pEvent = TokenEvent (js ''hi'')\<rparr>]\<rparr>))) = []"
proof -
  let ?st = "(initialPipeline failedRun)
      \<lparr>eventBatch := [\<lparr>pSessionId = js ''s1'', pEvent = TokenEvent (js ''hi'')\<rparr>]\<rparr>"
  have h1: "eventBatch ?st \<noteq> []" by simp
  have h2: "\<not> createManyOk failedRun (length (filter isCreateMany (trace ?st)))"
    by (simp add: failedRun_def)
  have h3: "\<not> createManyOk failedRun 0" by (simp add: failedRun_def)
  from flushEvents_drops_rejected_rows [of failedRun ?st] h1 h2
  have "trace (flushEvents failedRun ?st) =
        trace ?st @ [FlushEvents, CreateMany (eventBatch ?st) False,
                    ConsoleError (js ''Failed to persist terminal events'')]"
    and "persistedRows (trace (flushEvents failedRun ?st)) = persistedRows (trace ?st)"
    and "flushEvents failedRun ?st = ?st\<lparr>eventBatch := [], trace := trace (flushEvents failedRun ?st)\<rparr>"
    by blast+
  then show ?thesis using h1 h3
    by (simp add: initialPipeline_def)
qed

section \<open>The claim about the suggestion stream\<close>

text \<open>
  C2. \<open>runSuggest\<close> never calls the chunk callback the route gives it, so the
  two field decoders receive no text and the values derived from them are
  empty on every run. Whenever \<open>runSuggest\<close> returns a structured result, the
  events written are one result event and the final marker, and the result
  event carries the structured result's \<open>command\<close> and \<open>explanation\<close>, with its
  token counts and latency.
\<close>

theorem structured_result_is_authoritative:
  assumes "fst (runSuggest e onStreamChunk initialGenerateState) = Inr result"
  shows "latestCommand (snd (runSuggest e onStreamChunk initialGenerateState)) = [] \<and>
         latestExplanation (snd (runSuggest e onStreamChunk initialGenerateState)) = [] \<and>
         currentValue (commandParser (snd (runSuggest e onStreamChunk initialGenerateState))) = [] \<and>
         currentValue (explanationParser (snd (runSuggest e onStreamChunk initialGenerateState))) = [] \<and>
         generateStream None e =
           [ResultEvent \<lparr> fpCommand = command (resultOutput result),
                          fpExplanation = explanation (resultOutput result),
                          fpTokensIn = usageInputTokens result,
                          fpTokensOut = usageOutputTokens result,
                          fpLatencyMs = resultLatencyMs result \<rparr>,
            DoneEvent]"
proof -
  have st: "snd (runSuggest e onStreamChunk initialGenerateState) = initialGenerateState"
    by (simp add: runSuggest_def split: sum.splits)
  obtain outcome s where r: "runSuggest e onStreamChunk initialGenerateState = (outcome, s)"
    by (cases "runSuggest e onStreamChunk initialGenerateState")
  with st assms have "s = initialGenerateState" "outcome = Inr result" by simp_all
  with r have "generateStream None e =
      sent initialGenerateState @
      [ResultEvent (buildFinalPayload initialGenerateState result), DoneEvent]"
    by (simp add: generateStream_def)
  then show ?thesis
    unfolding st
    by (simp add: initialGenerateState_def buildFinalPayload_def newDecoder_def)
qed

theorem structured_result_is_authoritative_witness:
  "fst (runSuggest
      \<lparr>apiKeyConfigured = True,
        runnerOutcome = Inr \<lparr>finalOutput = Some \<lparr>command = js ''ls -la'',
                                                   explanation = js ''list files''\<rparr>,
                             lastUsage = Some \<lparr>inputTokens = Some 10, outputTokens = None\<rparr>\<rparr>,
        elapsedMs = 100\<rparr> onStreamChunk initialGenerateState) =
     Inr \<lparr>resultOutput = \<lparr>command = js ''ls -la'', explanation = js ''list files''\<rparr>,
          usageInputTokens = 10, usageOutputTokens = 0, resultLatencyMs = 100\<rparr> \<and>
   generateStream None
      \<lparr>apiKeyConfigured = True,
        runnerOutcome = Inr \<lparr>finalOutput = Some \<lparr>command = js ''ls -la'',
                                                   explanation = js ''list files''\<rparr>,
                             lastUsage = Some \<lparr>inputTokens = Some 10, outputTokens = None\<rparr>\<rparr>,
        elapsedMs = 100\<rparr> =
     [ResultEvent \<lparr>fpCommand = js ''ls -la'', fpExplanation = js ''list files'',
                   fpTokensIn = 10, fpTokensOut = 0, fpLatencyMs = 100\<rparr>,
      DoneEvent]"
proof -
  have h: "fst (runSuggest
      \<lparr>apiKeyConfigured = True,
        runnerOutcome = Inr \<lparr>finalOutput = Some \<lparr>command = js ''ls -la'',
                                                   explanation = js ''list files''\<rparr>,
                             lastUsage = Some \<lparr>inputTokens = Some 10, outputTokens = None\<rparr>\<rparr>,
        elapsedMs = 100\<rparr> onStreamChunk initialGenerateState) =
     Inr \<lparr>resultOutput = \<lparr>command = js ''ls -la'', explanation = js ''list files''\<rparr>,
          usageInputTokens = 10, usageOutputTokens = 0, resultLatencyMs = 100\<rparr>"
    by (simp add: runSuggest_def createAgentRunResult_def)
  from structured_result_is_authoritative [OF h] h show ?thesis by simp
qed

end
